theory Spec2Isabelle
  imports Main
begin

section \<open>Values and errors\<close>

text \<open>
  The development embeds \<^verbatim>\<open>src/backend/graph.js\<close>: the identity codec
  (\<^verbatim>\<open>idToString\<close>, \<^verbatim>\<open>stringToID\<close>) and the merge engine (\<^verbatim>\<open>mergeGraphs\<close>,
  \<^verbatim>\<open>mergeGraphsConsistent\<close>, \<^verbatim>\<open>mergeGraphsArbitrary\<close>).

  JavaScript strings are modelled as \<open>string\<close>. A \<^verbatim>\<open>throw new Error(msg)\<close> of the source is
  the value \<open>Inl (Error msg)\<close>; an exception raised by the language itself when something
  that is not a function is called is \<open>Inl (TypeError msg)\<close>. The source has no error
  classes of its own: the three kinds of failure are told apart by the throwing function and
  by the message.
\<close>

datatype error = Error string | TypeError string

text \<open>The type \<^verbatim>\<open>ID\<close> of the source.\<close>

record ID =
  pluginName :: string
  repositoryName :: string
  name :: string

subsection \<open>String methods\<close>

text \<open>
  \<^verbatim>\<open>s.includes(c)\<close> and \<^verbatim>\<open>s.split(c)\<close> for a separator \<open>c\<close> of one character.
  A split cuts the string at every separator: the text before the first
  separator is the first part, and the rest after that separator is split in the same way;
  a string without separator is its own single part (so the empty string gives one empty
  part).
\<close>

definition str_includes :: "string \<Rightarrow> char \<Rightarrow> bool" where
  "str_includes s c = (c \<in> set s)"

function str_split :: "string \<Rightarrow> char \<Rightarrow> string list" where
  "str_split s c =
     (case dropWhile (\<lambda>x. x \<noteq> c) s of
        [] \<Rightarrow> [takeWhile (\<lambda>x. x \<noteq> c) s]
      | _ # rest \<Rightarrow> takeWhile (\<lambda>x. x \<noteq> c) s # str_split rest c)"
  by pat_completeness auto
termination
proof (relation "measure (\<lambda>(s, c). length s)")
  show "wf (measure (\<lambda>(s, c). length s))" by simp
next
  fix s :: string and c x rest
  assume "dropWhile (\<lambda>x. x \<noteq> c) s = x # rest"
  then have "length rest < length (dropWhile (\<lambda>x. x \<noteq> c) s)" by simp
  also have "\<dots> \<le> length s" by (rule length_dropWhile_le)
  finally show "((rest, c), (s, c)) \<in> measure (\<lambda>(s, c). length s)" by simp
qed

fun join :: "string list \<Rightarrow> string \<Rightarrow> string" where
  "join [] sep = []"
| "join [x] sep = x"
| "join (x # y # ys) sep = x @ sep @ join (y # ys) sep"

subsection \<open>JSON.stringify\<close>

text \<open>
  \<^verbatim>\<open>JSON.stringify\<close> of a string puts it in double quotes and escapes the double quote, the
  backslash and the control characters. The characters \<open>CHR 0x22\<close> and \<open>CHR 0x5C\<close> are the
  double quote and the backslash.
\<close>

definition hex_digit :: "nat \<Rightarrow> char" where
  "hex_digit n = (''0123456789abcdef'' ! (n mod 16))"

definition quote_char :: "char \<Rightarrow> string" where
  \<open>quote_char c =
     (if c = CHR 0x22 then [CHR 0x5C, CHR 0x22]
      else if c = CHR 0x5C then [CHR 0x5C, CHR 0x5C]
      else if c = CHR 0x08 then [CHR 0x5C, CHR ''b'']
      else if c = CHR 0x0C then [CHR 0x5C, CHR ''f'']
      else if c = CHR 0x0A then [CHR 0x5C, CHR ''n'']
      else if c = CHR 0x0D then [CHR 0x5C, CHR ''r'']
      else if c = CHR 0x09 then [CHR 0x5C, CHR ''t'']
      else if (of_char c :: nat) < 32
        then [CHR 0x5C, CHR ''u'', CHR ''0'', CHR ''0'',
              hex_digit (of_char c div 16), hex_digit (of_char c)]
      else [c])\<close>

definition JSON_stringify_string :: "string \<Rightarrow> string" where
  "JSON_stringify_string s = [CHR 0x22] @ concat (map quote_char s) @ [CHR 0x22]"

text \<open>
  The objects that the merge compares are modelled by the values that a JSON text denotes.
  An object is the list of its own properties in the order in which \<^verbatim>\<open>JSON.stringify\<close>
  visits them, which is the order in which they were created: two objects with the same
  properties in another order are two values here, as they are two texts for
  \<^verbatim>\<open>JSON.stringify\<close>. Numbers are the integers that a JavaScript number holds exactly
  (magnitude at most \<open>2\<^sup>5\<^sup>3\<close>), which \<^verbatim>\<open>JSON.stringify\<close> prints in decimal notation;
  other numbers are outside the model.
\<close>

datatype json =
    JNull
  | JBool bool
  | JNumber int
  | JString string
  | JArray "json list"
  | JObject "(string \<times> json) list"

fun digits :: "nat \<Rightarrow> string" where
  "digits n = (if n < 10 then [hex_digit n] else digits (n div 10) @ [hex_digit (n mod 10)])"

definition number_toString :: "int \<Rightarrow> string" where
  "number_toString k = (if k < 0 then ''-'' @ digits (nat (- k)) else digits (nat k))"

primrec JSON_stringify :: "json \<Rightarrow> string" where
  "JSON_stringify JNull = ''null''"
| "JSON_stringify (JBool b) = (if b then ''true'' else ''false'')"
| "JSON_stringify (JNumber k) = number_toString k"
| "JSON_stringify (JString s) = JSON_stringify_string s"
| "JSON_stringify (JArray xs) = ''['' @ join (map JSON_stringify xs) '','' @ '']''"
| "JSON_stringify (JObject kvs) =
     ''{'' @ join (map (\<lambda>kv. JSON_stringify_string (fst kv) @ '':'' @ snd kv)
                    (map (map_prod (\<lambda>k. k) JSON_stringify) kvs)) '','' @ ''}''"

section \<open>The identity codec\<close>

text \<open>
  \<^verbatim>\<open>idToString\<close> checks the three fields in the order \<^verbatim>\<open>pluginName\<close>,
  \<^verbatim>\<open>repositoryName\<close>, \<^verbatim>\<open>name\<close> and throws at the first one that includes the
  separator; the message quotes the field's value with \<^verbatim>\<open>JSON.stringify\<close>. Otherwise it
  returns the three fields with a separator between them.
\<close>

definition idToString :: "ID \<Rightarrow> error + string" where
  \<open>idToString i =
     (if str_includes (pluginName i) CHR ''$'' then
        Inl (Error (''id.pluginName must not include "$": '' @ JSON_stringify_string (pluginName i)))
      else if str_includes (repositoryName i) CHR ''$'' then
        Inl (Error (''id.repositoryName must not include "$": '' @ JSON_stringify_string (repositoryName i)))
      else if str_includes (name i) CHR ''$'' then
        Inl (Error (''id.name must not include "$": '' @ JSON_stringify_string (name i)))
      else Inr (pluginName i @ ''$'' @ repositoryName i @ ''$'' @ name i))\<close>

text \<open>
  \<^verbatim>\<open>stringToID\<close> splits its argument at the separator and throws unless there are exactly
  three parts.
\<close>

definition stringToID :: "string \<Rightarrow> error + ID" where
  \<open>stringToID string =
     (let parts = str_split string CHR ''$'' in
      if length parts \<noteq> 3 then
        Inl (Error (''Input should have exactly two $s: '' @ JSON_stringify_string string))
      else Inr \<lparr>pluginName = parts ! 0, repositoryName = parts ! 1, name = parts ! 2\<rparr>)\<close>

text \<open>
  The types are erased when the program runs, and one call site of the source passes
  the value of \<^verbatim>\<open>a.id\<close>, an \<^verbatim>\<open>ID\<close> object, where the parameter is declared a
  string.
  The first statement of the function is the call \<^verbatim>\<open>string.split("$")\<close>. An object, an
  array, a number and a boolean have no \<^verbatim>\<open>split\<close> method, so the call raises a type
  error; on \<^verbatim>\<open>undefined\<close> (\<open>None\<close>) and \<^verbatim>\<open>null\<close> already the property access
  does. Only a string reaches the rest of the function.
\<close>

definition stringToID_untyped :: "json option \<Rightarrow> error + ID" where
  "stringToID_untyped v =
     (case v of
        None \<Rightarrow> Inl (TypeError ''Cannot read properties of undefined'')
      | Some JNull \<Rightarrow> Inl (TypeError ''Cannot read properties of null'')
      | Some (JString s) \<Rightarrow> stringToID s
      | Some _ \<Rightarrow> Inl (TypeError ''string.split is not a function''))"

text \<open>The identifiers that the encoder accepts, and the strings that the decoder accepts.\<close>

definition valid_ID :: "ID \<Rightarrow> bool" where
  "valid_ID i = (\<not> str_includes (pluginName i) CHR ''$''
                 \<and> \<not> str_includes (repositoryName i) CHR ''$''
                 \<and> \<not> str_includes (name i) CHR ''$'')"

definition three_part_token :: "string \<Rightarrow> bool" where
  "three_part_token t = (length (str_split t CHR ''$'') = 3)"

section \<open>Graphs\<close>

text \<open>
  The types \<^verbatim>\<open>GraphNode\<close> and \<^verbatim>\<open>GraphEdge\<close> of the source. The field
  \<^verbatim>\<open>id\<close> of a node and of an edge is \<open>id_node\<close> and \<open>id_edge\<close> here, and likewise
  for the other fields that two of the types share.
\<close>

record GraphNode =
  id_node :: ID
  edges_node :: "ID list"
  payload_node :: json

record GraphEdge =
  id_edge :: ID
  sourceId :: ID
  destId :: ID
  weight :: int
  payload_edge :: json

text \<open>
  The types say which properties a node and an edge have, not in which order an object
  holds them, and \<^verbatim>\<open>JSON.stringify\<close> follows the order of the object. So a graph holds
  its nodes and edges as objects, that is as values of the type \<open>json\<close>. The functions
  \<open>json_of_GraphNode\<close> and \<open>json_of_GraphEdge\<close> give the object that a literal builds
  when it lists the properties in the order of the type; an object built in another order
  is another value of the type \<open>json\<close>.
\<close>

definition json_of_ID :: "ID \<Rightarrow> json" where
  "json_of_ID i = JObject [(''pluginName'', JString (pluginName i)),
                           (''repositoryName'', JString (repositoryName i)),
                           (''name'', JString (name i))]"

definition json_of_GraphNode :: "GraphNode \<Rightarrow> json" where
  "json_of_GraphNode a = JObject [(''id'', json_of_ID (id_node a)),
                                  (''edges'', JArray (map json_of_ID (edges_node a))),
                                  (''payload'', payload_node a)]"

definition json_of_GraphEdge :: "GraphEdge \<Rightarrow> json" where
  "json_of_GraphEdge a = JObject [(''id'', json_of_ID (id_edge a)),
                                  (''sourceId'', json_of_ID (sourceId a)),
                                  (''destId'', json_of_ID (destId a)),
                                  (''weight'', JNumber (weight a)),
                                  (''payload'', payload_edge a)]"

text \<open>
  The property access \<^verbatim>\<open>a.id\<close>: it throws on \<^verbatim>\<open>null\<close>, gives the own property of
  that name of an object (none is inherited under this name), and \<^verbatim>\<open>undefined\<close>
  (\<open>None\<close>) where there is no such property.
\<close>

definition property_id :: "json \<Rightarrow> error + json option" where
  "property_id a =
     (case a of
        JNull \<Rightarrow> Inl (TypeError ''Cannot read properties of null'')
      | JObject ps \<Rightarrow> Inr (map_of ps ''id'')
      | _ \<Rightarrow> Inr None)"

text \<open>A node or an edge of the declared type holds an object under \<^verbatim>\<open>id\<close>.\<close>

definition has_ID_object :: "json \<Rightarrow> bool" where
  "has_ID_object a = (case property_id a of Inr (Some (JObject q)) \<Rightarrow> True | _ \<Rightarrow> False)"

text \<open>
  An object used as a dictionary is the list of its properties, in the order of
  \<^verbatim>\<open>Object.keys\<close>. An assignment \<^verbatim>\<open>obj[key] = v\<close> replaces the value of a property
  that exists, at its place, and appends a new property otherwise.

  The test \<^verbatim>\<open>key in obj\<close> is modelled on the object's own properties. In JavaScript the
  test is also true for the names that a plain object inherits, such as
  \<^verbatim>\<open>constructor\<close> and \<^verbatim>\<open>toString\<close>. None of these names contains the separator, so
  the model and the code agree on every key that is an identifier token, and they differ on
  the inherited names. The keys of a graph are identifier tokens (\<open>token_keys\<close>); a
  statement about all graphs whose truth depends on this test has that as a hypothesis.
\<close>

type_synonym 'v dict = "(string \<times> 'v) list"

record Graph =
  nodes :: "json dict"
  edges :: "json dict"

definition Object_keys :: "'v dict \<Rightarrow> string list" where
  "Object_keys d = map fst d"

definition has_property :: "string \<Rightarrow> 'v dict \<Rightarrow> bool" where
  "has_property key d = (key \<in> set (Object_keys d))"

definition get_property :: "'v dict \<Rightarrow> string \<Rightarrow> 'v option" where
  "get_property d key = map_of d key"

fun set_property :: "'v dict \<Rightarrow> string \<Rightarrow> 'v \<Rightarrow> 'v dict" where
  "set_property [] key v = [(key, v)]"
| "set_property ((k, w) # d) key v =
     (if k = key then (k, v) # d else (k, w) # set_property d key v)"

definition token_keys :: "Graph \<Rightarrow> bool" where
  "token_keys g = ((\<forall>key \<in> set (Object_keys (nodes g)). three_part_token key)
                   \<and> (\<forall>key \<in> set (Object_keys (edges g)). three_part_token key))"

section \<open>The merge engine on values\<close>

text \<open>
  \<^verbatim>\<open>xs.forEach(f)\<close> where \<open>f\<close> updates a state and may throw: the loop stops at the first
  exception.
\<close>

fun forEach :: "'a list \<Rightarrow> ('a \<Rightarrow> 's \<Rightarrow> error + 's) \<Rightarrow> 's \<Rightarrow> error + 's" where
  "forEach [] f s = Inr s"
| "forEach (x # xs) f s = (case f x s of Inl e \<Rightarrow> Inl e | Inr s' \<Rightarrow> forEach xs f s')"

text \<open>
  The body of the two loops of \<^verbatim>\<open>mergeGraphs\<close>, which differ in the dictionary only:
  \<^verbatim>\<open>if (key in result.nodes) { result.nodes[key] = nodeReducer(g1.nodes[key], g2.nodes[key]); }\<close>
  There is no \<^verbatim>\<open>else\<close>. A lookup of a missing key would give \<^verbatim>\<open>undefined\<close>; the two
  \<open>None\<close> branches stand for that, and lemma \<open>mergeDict_Inl\<close> below shows that the loops
  never reach them.
\<close>

definition reduceKey ::
  "'v dict \<Rightarrow> 'v dict \<Rightarrow> ('v \<Rightarrow> 'v \<Rightarrow> error + 'v) \<Rightarrow> string \<Rightarrow> 'v dict \<Rightarrow> error + 'v dict" where
  "reduceKey d1 d2 reducer key result =
     (if has_property key result then
        (case get_property d1 key of
           None \<Rightarrow> Inl (TypeError ''undefined'')
         | Some a \<Rightarrow>
             (case get_property d2 key of
                None \<Rightarrow> Inl (TypeError ''undefined'')
              | Some b \<Rightarrow>
                  (case reducer a b of
                     Inl e \<Rightarrow> Inl e
                   | Inr v \<Rightarrow> Inr (set_property result key v))))
      else Inr result)"

text \<open>
  \<^verbatim>\<open>mergeGraphs\<close>: the result starts as a copy of the two dictionaries of \<open>g1\<close>; then the
  keys of \<open>g2\<close>'s nodes are visited, then the keys of \<open>g2\<close>'s edges.
\<close>

definition mergeGraphs ::
  "Graph \<Rightarrow> Graph \<Rightarrow> (json \<Rightarrow> json \<Rightarrow> error + json)
     \<Rightarrow> (json \<Rightarrow> json \<Rightarrow> error + json) \<Rightarrow> error + Graph" where
  "mergeGraphs g1 g2 nodeReducer edgeReducer =
     (case forEach (Object_keys (nodes g2)) (reduceKey (nodes g1) (nodes g2) nodeReducer) (nodes g1) of
        Inl e \<Rightarrow> Inl e
      | Inr result_nodes \<Rightarrow>
          (case forEach (Object_keys (edges g2)) (reduceKey (edges g1) (edges g2) edgeReducer) (edges g1) of
             Inl e \<Rightarrow> Inl e
           | Inr result_edges \<Rightarrow> Inr \<lparr>nodes = result_nodes, edges = result_edges\<rparr>))"

text \<open>
  The reducers of \<^verbatim>\<open>mergeGraphsConsistent\<close> compare the two texts that
  \<^verbatim>\<open>JSON.stringify\<close> gives for the two objects. When the texts differ, the message of the
  error is built from \<^verbatim>\<open>stringToID(a.id)\<close>, and the call is evaluated before the error
  is constructed. In a node or an edge of the declared type \<^verbatim>\<open>a.id\<close> is an \<^verbatim>\<open>ID\<close>
  object. Where the call returns an object (\<^verbatim>\<open>a.id\<close> was a string), the template
  prints it as \<open>Object_toString\<close> says.
\<close>

definition Object_toString :: "ID \<Rightarrow> string" where
  "Object_toString i = ''[object Object]''"

definition confluentNodeReducer :: "json \<Rightarrow> json \<Rightarrow> error + json" where
  "confluentNodeReducer a b =
     (if JSON_stringify a = JSON_stringify b then Inr a
      else (case property_id a of
              Inl e \<Rightarrow> Inl e
            | Inr v \<Rightarrow>
                (case stringToID_untyped v of
                   Inl e \<Rightarrow> Inl e
                 | Inr i \<Rightarrow> Inl (Error (''distinct nodes with id '' @ Object_toString i)))))"

definition confluentEdgeReducer :: "json \<Rightarrow> json \<Rightarrow> error + json" where
  "confluentEdgeReducer a b =
     (if JSON_stringify a = JSON_stringify b then Inr a
      else (case property_id a of
              Inl e \<Rightarrow> Inl e
            | Inr v \<Rightarrow>
                (case stringToID_untyped v of
                   Inl e \<Rightarrow> Inl e
                 | Inr i \<Rightarrow> Inl (Error (''distinct edge with id '' @ Object_toString i)))))"

definition mergeGraphsConsistent :: "Graph \<Rightarrow> Graph \<Rightarrow> error + Graph" where
  "mergeGraphsConsistent g1 g2 = mergeGraphs g1 g2 confluentNodeReducer confluentEdgeReducer"

definition mergeGraphsArbitrary :: "Graph \<Rightarrow> Graph \<Rightarrow> error + Graph" where
  "mergeGraphsArbitrary g1 g2 = mergeGraphs g1 g2 (\<lambda>a b. Inr b) (\<lambda>a b. Inr b)"

text \<open>
  The loop of \<open>mergeGraphs\<close> over one dictionary: the nodes and the edges are merged by
  the same loop, and the lemmas below are proved once for both.
\<close>

definition mergeDict :: "'v dict \<Rightarrow> 'v dict \<Rightarrow> ('v \<Rightarrow> 'v \<Rightarrow> error + 'v) \<Rightarrow> error + 'v dict" where
  "mergeDict d1 d2 reducer = forEach (Object_keys d2) (reduceKey d1 d2 reducer) d1"

section \<open>The merge engine on a store\<close>

text \<open>
  Whether a merge changes its arguments, and whether its result shares a dictionary with
  them, cannot be read off a function from values to values. The second model keeps the
  objects in a store. A graph object holds two references, to the dictionary of its nodes
  and to the dictionary of its edges; a dictionary holds, for each key, a reference to a
  node or edge object. The store maps addresses to objects, one map for each kind of
  object, and \<open>next_addr\<close> is the first address that is not in use: an object literal takes
  this address and moves the mark.
\<close>

type_synonym addr = nat

record GraphObject =
  nodes_ref :: addr
  edges_ref :: addr

record heap =
  graph_at :: "addr \<Rightarrow> GraphObject"
  dict_at :: "addr \<Rightarrow> addr dict"
  node_at :: "addr \<Rightarrow> json"
  edge_at :: "addr \<Rightarrow> json"
  next_addr :: addr

text \<open>The object literals \<^verbatim>\<open>{...d}\<close> and \<^verbatim>\<open>{nodes: n, edges: e}\<close>.\<close>

definition new_dict :: "addr dict \<Rightarrow> heap \<Rightarrow> addr \<times> heap" where
  "new_dict d h =
     (next_addr h, h\<lparr>dict_at := (dict_at h)(next_addr h := d), next_addr := Suc (next_addr h)\<rparr>)"

definition new_graph :: "addr \<Rightarrow> addr \<Rightarrow> heap \<Rightarrow> addr \<times> heap" where
  "new_graph n e h =
     (next_addr h,
      h\<lparr>graph_at := (graph_at h)(next_addr h := \<lparr>nodes_ref = n, edges_ref = e\<rparr>),
        next_addr := Suc (next_addr h)\<rparr>)"

text \<open>
  A reducer receives two references and returns one; it may read the store. The body of
  the loops reads \<^verbatim>\<open>result.nodes\<close>, \<^verbatim>\<open>g1.nodes\<close> and \<^verbatim>\<open>g2.nodes\<close> (or the
  \<^verbatim>\<open>edges\<close>, according to \<open>field\<close>) from the store at every key, and its only write is
  the assignment to a property of the dictionary that \<^verbatim>\<open>result\<close> refers to.
\<close>

type_synonym heap_reducer = "heap \<Rightarrow> addr \<Rightarrow> addr \<Rightarrow> error + addr"

definition reduceKey_heap ::
  "(GraphObject \<Rightarrow> addr) \<Rightarrow> addr \<Rightarrow> addr \<Rightarrow> addr \<Rightarrow> heap_reducer \<Rightarrow> string \<Rightarrow> heap \<Rightarrow> error + heap" where
  "reduceKey_heap field g1 g2 result reducer key h =
     (let r = field (graph_at h result) in
      if has_property key (dict_at h r) then
        (case get_property (dict_at h (field (graph_at h g1))) key of
           None \<Rightarrow> Inl (TypeError ''undefined'')
         | Some a \<Rightarrow>
             (case get_property (dict_at h (field (graph_at h g2))) key of
                None \<Rightarrow> Inl (TypeError ''undefined'')
              | Some b \<Rightarrow>
                  (case reducer h a b of
                     Inl e \<Rightarrow> Inl e
                   | Inr v \<Rightarrow>
                       Inr (h\<lparr>dict_at := (dict_at h)(r := set_property (dict_at h r) key v)\<rparr>))))
      else Inr h)"

text \<open>A loop that throws leaves the store as it was when the exception was raised.\<close>

fun forEach_heap :: "'a list \<Rightarrow> ('a \<Rightarrow> heap \<Rightarrow> error + heap) \<Rightarrow> heap \<Rightarrow> error option \<times> heap" where
  "forEach_heap [] f h = (None, h)"
| "forEach_heap (x # xs) f h =
     (case f x h of Inl e \<Rightarrow> (Some e, h) | Inr h' \<Rightarrow> forEach_heap xs f h')"

text \<open>
  \<^verbatim>\<open>mergeGraphs\<close> with the arguments \<open>g1\<close> and \<open>g2\<close> given by reference. The first
  statement builds three objects: the copy of \<^verbatim>\<open>g1.nodes\<close>, the copy of \<^verbatim>\<open>g1.edges\<close>
  and the graph object that refers to the two. The result is the outcome (the reference to
  that graph object, or the exception) and the store at the end.
\<close>

definition mergeGraphs_heap ::
  "addr \<Rightarrow> addr \<Rightarrow> heap_reducer \<Rightarrow> heap_reducer \<Rightarrow> heap \<Rightarrow> (error + addr) \<times> heap" where
  "mergeGraphs_heap g1 g2 nodeReducer edgeReducer h =
     (let (rn, h1) = new_dict (dict_at h (nodes_ref (graph_at h g1))) h;
          (re, h2) = new_dict (dict_at h1 (edges_ref (graph_at h1 g1))) h1;
          (result, h3) = new_graph rn re h2
      in case forEach_heap (Object_keys (dict_at h3 (nodes_ref (graph_at h3 g2))))
                (reduceKey_heap nodes_ref g1 g2 result nodeReducer) h3 of
           (Some e, h4) \<Rightarrow> (Inl e, h4)
         | (None, h4) \<Rightarrow>
             (case forEach_heap (Object_keys (dict_at h4 (edges_ref (graph_at h4 g2))))
                     (reduceKey_heap edges_ref g1 g2 result edgeReducer) h4 of
                (Some e, h5) \<Rightarrow> (Inl e, h5)
              | (None, h5) \<Rightarrow> (Inr result, h5)))"

text \<open>The reducers of the two policies on references: they read the store only.\<close>

definition confluentNodeReducer_heap :: heap_reducer where
  "confluentNodeReducer_heap h a b =
     (if JSON_stringify (node_at h a) = JSON_stringify (node_at h b) then Inr a
      else (case property_id (node_at h a) of
              Inl e \<Rightarrow> Inl e
            | Inr v \<Rightarrow>
                (case stringToID_untyped v of
                   Inl e \<Rightarrow> Inl e
                 | Inr i \<Rightarrow> Inl (Error (''distinct nodes with id '' @ Object_toString i)))))"

definition confluentEdgeReducer_heap :: heap_reducer where
  "confluentEdgeReducer_heap h a b =
     (if JSON_stringify (edge_at h a) = JSON_stringify (edge_at h b) then Inr a
      else (case property_id (edge_at h a) of
              Inl e \<Rightarrow> Inl e
            | Inr v \<Rightarrow>
                (case stringToID_untyped v of
                   Inl e \<Rightarrow> Inl e
                 | Inr i \<Rightarrow> Inl (Error (''distinct edge with id '' @ Object_toString i)))))"

definition mergeGraphsConsistent_heap :: "addr \<Rightarrow> addr \<Rightarrow> heap \<Rightarrow> (error + addr) \<times> heap" where
  "mergeGraphsConsistent_heap g1 g2 h =
     mergeGraphs_heap g1 g2 confluentNodeReducer_heap confluentEdgeReducer_heap h"

definition mergeGraphsArbitrary_heap :: "addr \<Rightarrow> addr \<Rightarrow> heap \<Rightarrow> (error + addr) \<times> heap" where
  "mergeGraphsArbitrary_heap g1 g2 h = mergeGraphs_heap g1 g2 (\<lambda>h a b. Inr b) (\<lambda>h a b. Inr b) h"

text \<open>
  A graph that the caller holds lies below the mark, with both its dictionaries. The value
  of a graph in a store is the graph of the first model that it denotes.
\<close>

definition allocated :: "heap \<Rightarrow> addr \<Rightarrow> bool" where
  "allocated h g = (g < next_addr h \<and> nodes_ref (graph_at h g) < next_addr h
                    \<and> edges_ref (graph_at h g) < next_addr h)"

definition deref :: "(addr \<Rightarrow> 'v) \<Rightarrow> addr dict \<Rightarrow> 'v dict" where
  "deref f d = map (\<lambda>(key, a). (key, f a)) d"

definition graph_of :: "heap \<Rightarrow> addr \<Rightarrow> Graph" where
  "graph_of h g =
     \<lparr>nodes = deref (node_at h) (dict_at h (nodes_ref (graph_at h g))),
      edges = deref (edge_at h) (dict_at h (edges_ref (graph_at h g)))\<rparr>"

text \<open>The second store differs from the first in the dictionary at one address at most.\<close>

definition writes_only :: "addr \<Rightarrow> heap \<Rightarrow> heap \<Rightarrow> bool" where
  "writes_only r h h' = (\<exists>d. h' = h\<lparr>dict_at := (dict_at h)(r := d)\<rparr>)"

section \<open>Example values\<close>

text \<open>
  The nodes of the specification's concrete scenario: \<open>NodeA\<close> and \<open>NodeA'\<close> carry the
  same identifier and differ in their payload; \<open>NodeB\<close> has another identifier. The edges
  \<open>EdgeE\<close> and \<open>EdgeE'\<close> likewise differ in their weight only. All are built in the
  order of their type. \<open>NodeA_reordered\<close> is the node \<open>NodeA\<close> built by a literal that
  lists the same three properties with the same values in the opposite order.
\<close>

definition idA :: ID where
  "idA = \<lparr>pluginName = ''p'', repositoryName = ''r'', name = ''a''\<rparr>"

definition idB :: ID where
  "idB = \<lparr>pluginName = ''p'', repositoryName = ''r'', name = ''b''\<rparr>"

definition idE :: ID where
  "idE = \<lparr>pluginName = ''p'', repositoryName = ''r'', name = ''e''\<rparr>"

definition NodeA :: json where
  "NodeA = json_of_GraphNode
             \<lparr>id_node = idA, edges_node = [], payload_node = JString ''first''\<rparr>"

definition NodeA' :: json where
  "NodeA' = json_of_GraphNode
              \<lparr>id_node = idA, edges_node = [], payload_node = JString ''second''\<rparr>"

definition NodeB :: json where
  "NodeB = json_of_GraphNode \<lparr>id_node = idB, edges_node = [idE], payload_node = JNull\<rparr>"

definition EdgeE :: json where
  "EdgeE = json_of_GraphEdge
             \<lparr>id_edge = idE, sourceId = idA, destId = idB, weight = 1, payload_edge = JNull\<rparr>"

definition EdgeE' :: json where
  "EdgeE' = json_of_GraphEdge
              \<lparr>id_edge = idE, sourceId = idA, destId = idB, weight = 2, payload_edge = JNull\<rparr>"



definition emptyGraph :: Graph where
  "emptyGraph = \<lparr>nodes = [], edges = []\<rparr>"

text \<open>
  A store with the two graphs of the scenario: the node objects at the addresses 0 to 2,
  the dictionaries at 3 to 6, the graph \<open>g1\<close> at 7 and the graph \<open>g2\<close> at 8.
\<close>

definition heap0 :: heap where
  "heap0 =
     \<lparr>graph_at = (\<lambda>_. \<lparr>nodes_ref = 3, edges_ref = 4\<rparr>)(8 := \<lparr>nodes_ref = 5, edges_ref = 6\<rparr>),
      dict_at = (\<lambda>_. [])(3 := [(''p$r$a'', 0)], 5 := [(''p$r$a'', 1), (''p$r$b'', 2)]),
      node_at = (\<lambda>_. NodeB)(0 := NodeA, 1 := NodeA'),
      edge_at = (\<lambda>_. EdgeE),
      next_addr = 9\<rparr>"

section \<open>Properties of the identity codec\<close>

declare str_split.simps [simp del]

lemma takeWhile_no_sep: "c \<notin> set s \<Longrightarrow> takeWhile (\<lambda>x. x \<noteq> c) s = s"
  by (induction s) auto

lemma dropWhile_no_sep: "c \<notin> set s \<Longrightarrow> dropWhile (\<lambda>x. x \<noteq> c) s = []"
  by (induction s) auto

lemma takeWhile_first_sep: "c \<notin> set p \<Longrightarrow> takeWhile (\<lambda>x. x \<noteq> c) (p @ c # rest) = p"
  by (induction p) auto

lemma dropWhile_first_sep: "c \<notin> set p \<Longrightarrow> dropWhile (\<lambda>x. x \<noteq> c) (p @ c # rest) = c # rest"
  by (induction p) auto

lemma str_split_no_sep:
  assumes "c \<notin> set s"
  shows "str_split s c = [s]"
proof -
  note t = takeWhile_no_sep[OF assms] and d = dropWhile_no_sep[OF assms]
  show ?thesis by (subst str_split.simps) (simp add: t d)
qed

lemma str_split_first_sep:
  assumes "c \<notin> set p"
  shows "str_split (p @ c # rest) c = p # str_split rest c"
proof -
  note t = takeWhile_first_sep[OF assms, of rest] and d = dropWhile_first_sep[OF assms, of rest]
  show ?thesis by (subst str_split.simps) (simp add: t d)
qed

lemma str_split_cases:
  obtains (no_sep) "c \<notin> set s"
        | (sep) p rest where "s = p @ c # rest" and "c \<notin> set p"
  using split_list_first[of c s] by blast

text \<open>No part produced by a split contains the separator.\<close>

lemma str_split_parts_free: "p \<in> set (str_split s c) \<Longrightarrow> c \<notin> set p"
proof (induction s arbitrary: p rule: length_induct)
  case (1 s)
  show ?case
  proof (cases c s rule: str_split_cases)
    case no_sep
    with "1.prems" show ?thesis by (simp add: str_split_no_sep)
  next
    case (sep q rest)
    then have "p = q \<or> p \<in> set (str_split rest c)"
      using "1.prems" by (simp add: str_split_first_sep)
    moreover have "length rest < length s" using sep by simp
    ultimately show ?thesis using "1.IH" sep(2) by blast
  qed
qed

text \<open>Joining the parts with the separator gives the string back.\<close>

lemma join_str_split: "join (str_split s c) [c] = s"
proof (induction s rule: length_induct)
  case (1 s)
  show ?case
  proof (cases c s rule: str_split_cases)
    case no_sep
    then show ?thesis by (simp add: str_split_no_sep)
  next
    case (sep q rest)
    have len: "length rest < length s" using sep by simp
    obtain r rs where r: "str_split rest c = r # rs"
      by (cases c rest rule: str_split_cases) (auto simp: str_split_no_sep str_split_first_sep)
    have "join (str_split s c) [c] = q @ [c] @ join (str_split rest c) [c]"
      using sep r by (simp add: str_split_first_sep)
    also have "\<dots> = q @ c # rest" using "1.IH" len by simp
    finally show ?thesis using sep by simp
  qed
qed

text \<open>A split yields one part more than the string has separators.\<close>

lemma length_str_split: "length (str_split s c) = Suc (count_list s c)"
proof (induction s rule: length_induct)
  case (1 s)
  show ?case
  proof (cases c s rule: str_split_cases)
    case no_sep
    then show ?thesis by (simp add: str_split_no_sep count_list_0_iff)
  next
    case (sep q rest)
    have len: "length rest < length s" using sep by simp
    have "count_list q c = 0" using sep by (simp add: count_list_0_iff)
    then have "count_list s c = Suc (count_list rest c)"
      using sep by simp
    then show ?thesis using sep "1.IH" len by (simp add: str_split_first_sep)
  qed
qed

lemma three_parts:
  assumes "length (str_split t c) = 3"
  obtains x y z where "str_split t c = [x, y, z]"
  using assms by (auto simp: numeral_3_eq_3 length_Suc_conv)

lemma idToString_ok:
  assumes "CHR ''$'' \<notin> set (pluginName i)" "CHR ''$'' \<notin> set (repositoryName i)"
    "CHR ''$'' \<notin> set (name i)"
  shows "idToString i = Inr (pluginName i @ ''$'' @ repositoryName i @ ''$'' @ name i)"
  using assms by (simp add: idToString_def str_includes_def)

lemma str_split_token:
  assumes "CHR ''$'' \<notin> set a" "CHR ''$'' \<notin> set b" "CHR ''$'' \<notin> set c"
  shows "str_split (a @ ''$'' @ b @ ''$'' @ c) CHR ''$'' = [a, b, c]"
  using assms by (simp add: str_split_first_sep str_split_no_sep)

lemma stringToID_token:
  assumes "CHR ''$'' \<notin> set a" "CHR ''$'' \<notin> set b" "CHR ''$'' \<notin> set c"
  shows "stringToID (a @ ''$'' @ b @ ''$'' @ c) =
           Inr \<lparr>pluginName = a, repositoryName = b, name = c\<rparr>"
  unfolding stringToID_def str_split_token[OF assms] by simp

lemma stringToID_three_parts:
  assumes "str_split t CHR ''$'' = [x, y, z]"
  shows "stringToID t = Inr \<lparr>pluginName = x, repositoryName = y, name = z\<rparr>"
    and "idToString \<lparr>pluginName = x, repositoryName = y, name = z\<rparr> = Inr t"
    and "valid_ID \<lparr>pluginName = x, repositoryName = y, name = z\<rparr>"
proof -
  have free: "CHR ''$'' \<notin> set x" "CHR ''$'' \<notin> set y" "CHR ''$'' \<notin> set z"
    using str_split_parts_free[of _ t "CHR ''$''"] assms by simp_all
  have "join (str_split t CHR ''$'') ''$'' = t" by (rule join_str_split)
  then have t: "t = x @ ''$'' @ y @ ''$'' @ z" using assms by simp
  show "stringToID t = Inr \<lparr>pluginName = x, repositoryName = y, name = z\<rparr>"
    by (simp add: stringToID_def assms)
  show "idToString \<lparr>pluginName = x, repositoryName = y, name = z\<rparr> = Inr t"
    using free t by (simp add: idToString_def str_includes_def)
  show "valid_ID \<lparr>pluginName = x, repositoryName = y, name = z\<rparr>"
    using free by (simp add: valid_ID_def str_includes_def)
qed

lemma valid_ID_roundtrip:
  assumes "valid_ID i"
  shows "idToString i = Inr (pluginName i @ ''$'' @ repositoryName i @ ''$'' @ name i)"
    and "stringToID (pluginName i @ ''$'' @ repositoryName i @ ''$'' @ name i) = Inr i"
    and "three_part_token (pluginName i @ ''$'' @ repositoryName i @ ''$'' @ name i)"
proof -
  from assms have f: "CHR ''$'' \<notin> set (pluginName i)" "CHR ''$'' \<notin> set (repositoryName i)"
    "CHR ''$'' \<notin> set (name i)"
    by (simp_all add: valid_ID_def str_includes_def)
  show "idToString i = Inr (pluginName i @ ''$'' @ repositoryName i @ ''$'' @ name i)"
    by (rule idToString_ok[OF f])
  show "stringToID (pluginName i @ ''$'' @ repositoryName i @ ''$'' @ name i) = Inr i"
    using stringToID_token[OF f] by simp
  show "three_part_token (pluginName i @ ''$'' @ repositoryName i @ ''$'' @ name i)"
    unfolding three_part_token_def str_split_token[OF f] by simp
qed

text \<open>
  Claim C4 (round trip, decode after encode). For every identifier none of whose three
  fields contains the separator \<open>$\<close>, \<open>idToString\<close> returns a token and \<open>stringToID\<close>
  of that token returns the identifier itself.
\<close>

theorem stringToID_idToString:
  assumes "\<not> str_includes (pluginName i) CHR ''$''"
      and "\<not> str_includes (repositoryName i) CHR ''$''"
      and "\<not> str_includes (name i) CHR ''$''"
  shows "\<exists>t. idToString i = Inr t \<and> stringToID t = Inr i"
proof -
  from assms have "valid_ID i" by (simp add: valid_ID_def)
  from valid_ID_roundtrip(1,2)[OF this] show ?thesis by blast
qed

theorem stringToID_idToString_witness:
  "\<not> str_includes ''sourcecred/github-beta'' CHR ''$''
   \<and> \<not> str_includes ''sourcecred'' CHR ''$''
   \<and> \<not> str_includes ''12/comment'' CHR ''$''
   \<and> (\<exists>t. idToString \<lparr>pluginName = ''sourcecred/github-beta'',
                        repositoryName = ''sourcecred'', name = ''12/comment''\<rparr> = Inr t
          \<and> stringToID t = Inr \<lparr>pluginName = ''sourcecred/github-beta'',
                                 repositoryName = ''sourcecred'', name = ''12/comment''\<rparr>)"
  using stringToID_idToString[of "\<lparr>pluginName = ''sourcecred/github-beta'',
                                   repositoryName = ''sourcecred'', name = ''12/comment''\<rparr>"]
  by (simp add: str_includes_def)

text \<open>
  Claim C10 (round trip, encode after decode). For every string that splits on \<open>$\<close> into
  exactly three parts, \<open>stringToID\<close> returns an identifier and \<open>idToString\<close> of that
  identifier returns the string itself. Together with the other round trip this makes the
  encoder a bijection from the identifiers with separator-free fields onto the three-part
  tokens (\<open>projr\<close> reads the token out of a successful result).
\<close>

theorem idToString_stringToID:
  assumes "length (str_split t CHR ''$'') = 3"
  shows "(\<exists>i. stringToID t = Inr i \<and> idToString i = Inr t)
         \<and> bij_betw (\<lambda>i. projr (idToString i)) {i. valid_ID i} {t. three_part_token t}"
proof
  from assms obtain x y z where parts: "str_split t CHR ''$'' = [x, y, z]"
    by (rule three_parts)
  from stringToID_three_parts(1,2)[OF parts]
  show "\<exists>i. stringToID t = Inr i \<and> idToString i = Inr t" by blast
next
  let ?enc = "\<lambda>i. projr (idToString i)"
  have enc: "?enc i = pluginName i @ ''$'' @ repositoryName i @ ''$'' @ name i"
    if "valid_ID i" for i
    using valid_ID_roundtrip(1)[OF that] by simp
  have "inj_on ?enc {i. valid_ID i}"
  proof (rule inj_onI)
    fix i j assume "i \<in> {i. valid_ID i}" "j \<in> {i. valid_ID i}" and eq: "?enc i = ?enc j"
    then have v: "valid_ID i" "valid_ID j" by simp_all
    have "Inr i = stringToID (?enc i)"
      using valid_ID_roundtrip(2)[OF v(1)] enc[OF v(1)] by simp
    also have "\<dots> = Inr j"
      using valid_ID_roundtrip(2)[OF v(2)] enc[OF v(2)] eq by simp
    finally show "i = j" by simp
  qed
  moreover have "?enc ` {i. valid_ID i} = {t. three_part_token t}"
  proof (rule set_eqI, rule iffI)
    fix u assume "u \<in> ?enc ` {i. valid_ID i}"
    then obtain i where v: "valid_ID i" and u: "u = ?enc i" by blast
    show "u \<in> {t. three_part_token t}"
      using valid_ID_roundtrip(3)[OF v] enc[OF v] u by simp
  next
    fix u assume "u \<in> {t. three_part_token t}"
    then have "length (str_split u CHR ''$'') = 3" by (simp add: three_part_token_def)
    then obtain x y z where parts: "str_split u CHR ''$'' = [x, y, z]"
      by (rule three_parts)
    let ?i = "\<lparr>pluginName = x, repositoryName = y, name = z\<rparr>"
    have "valid_ID ?i" and "?enc ?i = u"
      using stringToID_three_parts(2,3)[OF parts] by simp_all
    then show "u \<in> ?enc ` {i. valid_ID i}" by blast
  qed
  ultimately show "bij_betw ?enc {i. valid_ID i} {t. three_part_token t}"
    by (simp add: bij_betw_def)
qed

theorem idToString_stringToID_witness:
  "length (str_split ''p$r$a'' CHR ''$'') = 3
   \<and> (\<exists>i. stringToID ''p$r$a'' = Inr i \<and> idToString i = Inr ''p$r$a'')
   \<and> bij_betw (\<lambda>i. projr (idToString i)) {i. valid_ID i} {t. three_part_token t}"
proof -
  have h: "length (str_split ''p$r$a'' CHR ''$'') = 3"
    by (simp add: str_split.simps)
  from idToString_stringToID[OF h] h show ?thesis by simp
qed

text \<open>
  Claim C6 (encoder rejection). \<open>idToString\<close> fails exactly when one of the three fields
  contains the separator \<open>$\<close>. The error it throws then names a field that does contain
  the separator (the first one in the order \<open>pluginName\<close>, \<open>repositoryName\<close>, \<open>name\<close>)
  and quotes its value; this is the error the specification calls \<open>InvalidIdentifier\<close>.
  When it does not fail, the result is the three fields joined by the separator.
\<close>

theorem idToString_fails_iff:
  \<open>((\<exists>e. idToString i = Inl e) \<longleftrightarrow>
       str_includes (pluginName i) CHR ''$'' \<or> str_includes (repositoryName i) CHR ''$''
       \<or> str_includes (name i) CHR ''$'')
   \<and> (\<forall>e. idToString i = Inl e \<longrightarrow>
         (str_includes (pluginName i) CHR ''$'' \<and>
            e = Error (''id.pluginName must not include "$": '' @ JSON_stringify_string (pluginName i)))
       \<or> (str_includes (repositoryName i) CHR ''$'' \<and>
            e = Error (''id.repositoryName must not include "$": '' @ JSON_stringify_string (repositoryName i)))
       \<or> (str_includes (name i) CHR ''$'' \<and>
            e = Error (''id.name must not include "$": '' @ JSON_stringify_string (name i))))
   \<and> ((\<forall>e. idToString i \<noteq> Inl e) \<longrightarrow>
         idToString i = Inr (pluginName i @ ''$'' @ repositoryName i @ ''$'' @ name i))\<close>
  by (simp add: idToString_def)

theorem idToString_fails_iff_witness:
  \<open>str_includes ''a$b'' CHR ''$''
   \<and> idToString \<lparr>pluginName = ''git'', repositoryName = ''a$b'', name = ''c''\<rparr>
       = Inl (Error ''id.repositoryName must not include "$": "a$b"'')
   \<and> (\<forall>e. idToString \<lparr>pluginName = ''git'', repositoryName = ''ab'', name = ''c''\<rparr> \<noteq> Inl e)
   \<and> idToString \<lparr>pluginName = ''git'', repositoryName = ''ab'', name = ''c''\<rparr> = Inr ''git$ab$c''\<close>
proof -
  let ?bad = "\<lparr>pluginName = ''git'', repositoryName = ''a$b'', name = ''c''\<rparr>"
  let ?good = "\<lparr>pluginName = ''git'', repositoryName = ''ab'', name = ''c''\<rparr>"
  have inc: "str_includes ''a$b'' CHR ''$''" "\<not> str_includes ''git'' CHR ''$''"
    "\<not> str_includes ''ab'' CHR ''$''" "\<not> str_includes ''c'' CHR ''$''"
    by (simp_all add: str_includes_def)
  have js: \<open>JSON_stringify_string ''a$b'' = ''"a$b"''\<close>
    by (simp add: JSON_stringify_string_def quote_char_def)
  from idToString_fails_iff[of ?bad] inc obtain e where e: "idToString ?bad = Inl e"
    by auto
  with idToString_fails_iff[of ?bad] inc js
  have \<open>e = Error ''id.repositoryName must not include "$": "a$b"''\<close>
    by simp
  moreover from idToString_fails_iff[of ?good] inc
  have "(\<forall>e. idToString ?good \<noteq> Inl e) \<and> idToString ?good = Inr ''git$ab$c''"
    by simp
  ultimately show ?thesis using e inc(1) by simp
qed

text \<open>
  Claim C7 (decoder rejection). \<open>stringToID\<close> fails exactly when the split on \<open>$\<close> does
  not give three parts, which is when the string does not hold exactly two separators (fewer
  or more); the error quotes the input and is the one the specification calls
  \<open>MalformedToken\<close>. When the split gives three parts, the result is the identifier with
  these parts as its fields, in order.
\<close>

theorem stringToID_fails_iff:
  \<open>((\<exists>e. stringToID t = Inl e) \<longleftrightarrow> length (str_split t CHR ''$'') \<noteq> 3)
   \<and> (length (str_split t CHR ''$'') \<noteq> 3 \<longleftrightarrow> count_list t CHR ''$'' \<noteq> 2)
   \<and> (length (str_split t CHR ''$'') \<noteq> 3 \<longrightarrow>
         stringToID t = Inl (Error (''Input should have exactly two $s: '' @ JSON_stringify_string t)))
   \<and> (\<forall>x y z. str_split t CHR ''$'' = [x, y, z] \<longrightarrow>
         stringToID t = Inr \<lparr>pluginName = x, repositoryName = y, name = z\<rparr>)\<close>
  by (auto simp: stringToID_def length_str_split Let_def)

theorem stringToID_fails_iff_witness:
  \<open>length (str_split ''a$b'' CHR ''$'') \<noteq> 3
   \<and> stringToID ''a$b'' = Inl (Error ''Input should have exactly two $s: "a$b"'')
   \<and> length (str_split ''a$b$c$d'' CHR ''$'') \<noteq> 3
   \<and> stringToID ''a$b$c$d'' = Inl (Error ''Input should have exactly two $s: "a$b$c$d"'')
   \<and> str_split ''a$b$c'' CHR ''$'' = [''a'', ''b'', ''c'']
   \<and> stringToID ''a$b$c'' = Inr \<lparr>pluginName = ''a'', repositoryName = ''b'', name = ''c''\<rparr>\<close>
  using stringToID_fails_iff[of "''a$b''"] stringToID_fails_iff[of "''a$b$c$d''"]
        stringToID_fails_iff[of "''a$b$c''"]
  by (simp add: str_split.simps JSON_stringify_string_def quote_char_def)

section \<open>Properties of the merge engine\<close>

lemma has_property_map_of: "has_property key d \<longleftrightarrow> map_of d key \<noteq> None"
  by (simp add: has_property_def Object_keys_def map_of_eq_None_iff)

lemma Object_keys_set_property:
  "has_property key d \<Longrightarrow> Object_keys (set_property d key v) = Object_keys d"
  by (induction d key v rule: set_property.induct) (auto simp: has_property_def Object_keys_def)

lemma map_of_set_property: "map_of (set_property d key v) = (map_of d)(key \<mapsto> v)"
  by (induction d key v rule: set_property.induct) auto

lemma set_property_same: "map_of d key = Some v \<Longrightarrow> set_property d key v = d"
  by (induction d key v rule: set_property.induct) (auto split: if_splits)

lemma forEach_invariant:
  assumes "forEach xs f s = Inr r" and "P s"
    and step: "\<And>x s s'. P s \<Longrightarrow> f x s = Inr s' \<Longrightarrow> P s'"
  shows "P r"
  using assms(1,2)
proof (induction xs arbitrary: s)
  case Nil
  then show ?case by simp
next
  case (Cons x xs)
  from Cons.prems(1) obtain s' where s': "f x s = Inr s'" and rest: "forEach xs f s' = Inr r"
    by (auto split: sum.splits)
  from Cons.IH[OF rest step[OF Cons.prems(2) s']] show ?case .
qed

lemma forEach_error:
  assumes "forEach xs f s = Inl e" and "P s"
    and step: "\<And>x s s'. P s \<Longrightarrow> f x s = Inr s' \<Longrightarrow> P s'"
  shows "\<exists>x \<in> set xs. \<exists>s'. P s' \<and> f x s' = Inl e"
  using assms(1,2)
proof (induction xs arbitrary: s)
  case Nil
  then show ?case by simp
next
  case (Cons x xs)
  show ?case
  proof (cases "f x s")
    case (Inl e')
    with Cons.prems(1) have "e' = e" by simp
    with Inl Cons.prems(2) show ?thesis by auto
  next
    case (Inr s')
    with Cons.prems(1) have rest: "forEach xs f s' = Inl e" by simp
    from Cons.IH[OF rest step[OF Cons.prems(2) Inr]] show ?thesis by auto
  qed
qed

lemma forEach_fails:
  assumes "x \<in> set xs" and "P s"
    and step: "\<And>y s s'. P s \<Longrightarrow> f y s = Inr s' \<Longrightarrow> P s'"
    and fails: "\<And>s. P s \<Longrightarrow> \<exists>e. f x s = Inl e"
  shows "\<exists>e. forEach xs f s = Inl e"
  using assms(1,2)
proof (induction xs arbitrary: s)
  case Nil
  then show ?case by simp
next
  case (Cons y ys)
  show ?case
  proof (cases "f y s")
    case (Inl e)
    then show ?thesis by simp
  next
    case (Inr s')
    have "x \<noteq> y" using fails[OF Cons.prems(2)] Inr by auto
    with Cons.prems(1) have "x \<in> set ys" by simp
    from Cons.IH[OF this step[OF Cons.prems(2) Inr]] Inr show ?thesis by simp
  qed
qed

lemma reduceKey_keys:
  "reduceKey d1 d2 reducer key result = Inr result' \<Longrightarrow> Object_keys result' = Object_keys result"
  by (auto simp: reduceKey_def Object_keys_set_property split: if_splits option.splits sum.splits)

lemma reduceKey_Inl:
  assumes "reduceKey d1 d2 reducer key result = Inl e"
    and "Object_keys result = Object_keys d1" and "key \<in> set (Object_keys d2)"
  shows "\<exists>a b. map_of d1 key = Some a \<and> map_of d2 key = Some b \<and> reducer a b = Inl e"
proof -
  from assms(1) have h: "has_property key result"
    by (auto simp: reduceKey_def split: if_splits)
  then have "has_property key d1" using assms(2) by (simp add: has_property_def)
  then obtain a where a: "map_of d1 key = Some a" by (auto simp: has_property_map_of)
  from assms(3) have "has_property key d2" by (simp add: has_property_def)
  then obtain b where b: "map_of d2 key = Some b" by (auto simp: has_property_map_of)
  from assms(1) h a b have "reducer a b = Inl e"
    by (auto simp: reduceKey_def get_property_def split: sum.splits)
  with a b show ?thesis by blast
qed

lemma mergeGraphs_mergeDict:
  "mergeGraphs g1 g2 nr er =
     (case mergeDict (nodes g1) (nodes g2) nr of Inl e \<Rightarrow> Inl e
      | Inr rn \<Rightarrow> (case mergeDict (edges g1) (edges g2) er of Inl e \<Rightarrow> Inl e
                    | Inr re \<Rightarrow> Inr \<lparr>nodes = rn, edges = re\<rparr>))"
  unfolding mergeGraphs_def mergeDict_def by (rule refl)

lemma mergeDict_keys:
  fixes d1 :: "'v dict"
  assumes "mergeDict d1 d2 reducer = Inr r"
  shows "Object_keys r = Object_keys d1"
proof -
  let ?P = "\<lambda>s :: 'v dict. Object_keys s = Object_keys d1"
  have "?P r"
    using assms[unfolded mergeDict_def]
  proof (rule forEach_invariant[where P = ?P])
    show "?P d1" by simp
  next
    fix x s s' assume "?P s" "reduceKey d1 d2 reducer x s = Inr s'"
    then show "?P s'" using reduceKey_keys by metis
  qed
  then show ?thesis .
qed

lemma mergeDict_Inl:
  fixes d1 :: "'v dict"
  assumes "mergeDict d1 d2 reducer = Inl e"
  shows "\<exists>key a b. map_of d1 key = Some a \<and> map_of d2 key = Some b \<and> reducer a b = Inl e"
proof -
  let ?P = "\<lambda>s :: 'v dict. Object_keys s = Object_keys d1"
  have "\<exists>x \<in> set (Object_keys d2). \<exists>s'. ?P s' \<and> reduceKey d1 d2 reducer x s' = Inl e"
    using assms[unfolded mergeDict_def]
  proof (rule forEach_error[where P = ?P])
    show "?P d1" by simp
  next
    fix x s s' assume "?P s" "reduceKey d1 d2 reducer x s = Inr s'"
    then show "?P s'" using reduceKey_keys by metis
  qed
  then obtain key s' where "key \<in> set (Object_keys d2)" "Object_keys s' = Object_keys d1"
    "reduceKey d1 d2 reducer key s' = Inl e"
    by blast
  from reduceKey_Inl[OF this(3,2,1)] show ?thesis by blast
qed

lemma mergeDict_conflict:
  fixes d1 :: "'v dict"
  assumes "map_of d1 key = Some a" and "map_of d2 key = Some b" and "reducer a b = Inl e"
  shows "\<exists>e'. mergeDict d1 d2 reducer = Inl e'"
  unfolding mergeDict_def
proof (rule forEach_fails[where P = "\<lambda>s :: 'v dict. Object_keys s = Object_keys d1" and x = key])
  have "has_property key d2" using assms(2) by (simp add: has_property_map_of)
  then show "key \<in> set (Object_keys d2)" by (simp add: has_property_def)
  show "Object_keys d1 = Object_keys d1" by simp
next
  fix y and s s' :: "'v dict"
  assume "Object_keys s = Object_keys d1" "reduceKey d1 d2 reducer y s = Inr s'"
  then show "Object_keys s' = Object_keys d1" using reduceKey_keys by metis
next
  fix s :: "'v dict" assume keys: "Object_keys s = Object_keys d1"
  have "has_property key d1" using assms(1) by (simp add: has_property_map_of)
  then have "has_property key s" using keys by (simp add: has_property_def)
  then show "\<exists>e. reduceKey d1 d2 reducer key s = Inl e"
    using assms by (simp add: reduceKey_def get_property_def)
qed

text \<open>When the reducer never throws on the values the two dictionaries hold, the loop
  succeeds, and every key gets the reducer's value if both hold it, and keeps the value of
  the first dictionary if not.\<close>

lemma forEach_reduceKey_lookup:
  assumes "Object_keys acc = Object_keys d1"
    and "\<And>k a b. map_of d1 k = Some a \<Longrightarrow> map_of d2 k = Some b \<Longrightarrow> reducer a b = Inr (val a b)"
    and "set ks \<subseteq> set (Object_keys d2)"
  shows "\<exists>r. forEach ks (reduceKey d1 d2 reducer) acc = Inr r \<and>
             (\<forall>k. map_of r k =
                (if k \<in> set ks \<and> has_property k d1
                 then Some (val (the (map_of d1 k)) (the (map_of d2 k))) else map_of acc k))"
  using assms(1,3)
proof (induction ks arbitrary: acc)
  case Nil
  then show ?case by simp
next
  case (Cons key ks)
  have hp: "has_property key acc = has_property key d1"
    using Cons.prems(1) by (simp add: has_property_def)
  have "has_property key d2" using Cons.prems(2) by (simp add: has_property_def)
  then obtain b where b: "map_of d2 key = Some b" by (auto simp: has_property_map_of)
  show ?case
  proof (cases "has_property key d1")
    case False
    then have step: "reduceKey d1 d2 reducer key acc = Inr acc"
      using hp by (simp add: reduceKey_def)
    from Cons.IH[OF Cons.prems(1)] Cons.prems(2)
    obtain r where r: "forEach ks (reduceKey d1 d2 reducer) acc = Inr r"
      "\<forall>k. map_of r k = (if k \<in> set ks \<and> has_property k d1
                 then Some (val (the (map_of d1 k)) (the (map_of d2 k))) else map_of acc k)"
      by auto
    show ?thesis using step r False by auto
  next
    case True
    then obtain a where a: "map_of d1 key = Some a" by (auto simp: has_property_map_of)
    let ?acc' = "set_property acc key (val a b)"
    have step: "reduceKey d1 d2 reducer key acc = Inr ?acc'"
      using True hp a b assms(2)[OF a b] by (simp add: reduceKey_def get_property_def)
    have keys': "Object_keys ?acc' = Object_keys d1"
      using True hp Cons.prems(1) by (simp add: Object_keys_set_property)
    from Cons.IH[OF keys'] Cons.prems(2)
    obtain r where r: "forEach ks (reduceKey d1 d2 reducer) ?acc' = Inr r"
      "\<forall>k. map_of r k = (if k \<in> set ks \<and> has_property k d1
                 then Some (val (the (map_of d1 k)) (the (map_of d2 k))) else map_of ?acc' k)"
      by auto
    show ?thesis using step r a b True by (auto simp: map_of_set_property)
  qed
qed

lemma mergeDict_lookup:
  assumes "\<And>k a b. map_of d1 k = Some a \<Longrightarrow> map_of d2 k = Some b \<Longrightarrow> reducer a b = Inr (val a b)"
  shows "\<exists>r. mergeDict d1 d2 reducer = Inr r \<and>
           (\<forall>k. map_of r k =
              (case map_of d1 k of None \<Rightarrow> None
               | Some a \<Rightarrow> (case map_of d2 k of None \<Rightarrow> Some a | Some b \<Rightarrow> Some (val a b))))"
proof -
  have "\<exists>r. forEach (Object_keys d2) (reduceKey d1 d2 reducer) d1 = Inr r \<and>
             (\<forall>k. map_of r k =
                (if k \<in> set (Object_keys d2) \<and> has_property k d1
                 then Some (val (the (map_of d1 k)) (the (map_of d2 k))) else map_of d1 k))"
    by (rule forEach_reduceKey_lookup[where val = val]) (simp_all add: assms)
  then obtain r where r: "mergeDict d1 d2 reducer = Inr r"
    "\<forall>k. map_of r k = (if k \<in> set (Object_keys d2) \<and> has_property k d1
                 then Some (val (the (map_of d1 k)) (the (map_of d2 k))) else map_of d1 k)"
    unfolding mergeDict_def by blast
  have "map_of r k = (case map_of d1 k of None \<Rightarrow> None
               | Some a \<Rightarrow> (case map_of d2 k of None \<Rightarrow> Some a | Some b \<Rightarrow> Some (val a b)))" for k
    using r(2)[rule_format, of k] has_property_map_of[of k d1] has_property_map_of[of k d2]
    by (auto simp: has_property_def split: option.splits)
  with r(1) show ?thesis by blast
qed

lemma confluentNodeReducer_Inl:
  "confluentNodeReducer a b = Inl e \<Longrightarrow> has_ID_object a \<Longrightarrow>
     e = TypeError ''string.split is not a function''"
  by (auto simp: confluentNodeReducer_def has_ID_object_def stringToID_untyped_def
      split: if_splits sum.splits option.splits json.splits)

lemma confluentEdgeReducer_Inl:
  "confluentEdgeReducer a b = Inl e \<Longrightarrow> has_ID_object a \<Longrightarrow>
     e = TypeError ''string.split is not a function''"
  by (auto simp: confluentEdgeReducer_def has_ID_object_def stringToID_untyped_def
      split: if_splits sum.splits option.splits json.splits)

lemma confluentNodeReducer_neq:
  "JSON_stringify a \<noteq> JSON_stringify b \<Longrightarrow> \<exists>e. confluentNodeReducer a b = Inl e"
  by (auto simp: confluentNodeReducer_def split: sum.splits)

lemma confluentEdgeReducer_neq:
  "JSON_stringify a \<noteq> JSON_stringify b \<Longrightarrow> \<exists>e. confluentEdgeReducer a b = Inl e"
  by (auto simp: confluentEdgeReducer_def split: sum.splits)



text \<open>When the nodes and edges of the first graph are of the declared type and the keys
  of the second graph are identifier tokens, every error of the confluent merge is the type
  error of the call of \<open>stringToID\<close> on an identifier object.\<close>

lemma mergeGraphsConsistent_Inl:
  assumes "mergeGraphsConsistent g1 g2 = Inl e"
    and "token_keys g2"
    and "\<forall>(key, a) \<in> set (nodes g1). has_ID_object a"
    and "\<forall>(key, a) \<in> set (edges g1). has_ID_object a"
  shows "e = TypeError ''string.split is not a function''"
proof -
  from assms(1) have
    "mergeDict (nodes g1) (nodes g2) confluentNodeReducer = Inl e
     \<or> mergeDict (edges g1) (edges g2) confluentEdgeReducer = Inl e"
    by (auto simp: mergeGraphsConsistent_def mergeGraphs_mergeDict split: sum.splits)
  then show ?thesis
  proof
    assume "mergeDict (nodes g1) (nodes g2) confluentNodeReducer = Inl e"
    from mergeDict_Inl[OF this] obtain key a b where
      "map_of (nodes g1) key = Some a" "confluentNodeReducer a b = Inl e" by blast
    moreover from this(1) assms(3) have "has_ID_object a" by (auto dest: map_of_SomeD)
    ultimately show ?thesis using confluentNodeReducer_Inl by blast
  next
    assume "mergeDict (edges g1) (edges g2) confluentEdgeReducer = Inl e"
    from mergeDict_Inl[OF this] obtain key a b where
      a: "map_of (edges g1) key = Some a" "confluentEdgeReducer a b = Inl e" by blast
    from a(1) assms(4) have "has_ID_object a" by (auto dest: map_of_SomeD)
    with a(2) show ?thesis by (rule confluentEdgeReducer_Inl)
  qed
qed

text \<open>Two graphs that hold objects with different serialisations under one node key, or
  under one edge key, make the confluent merge throw.\<close>

lemma mergeGraphsConsistent_conflict:
  assumes "(\<exists>key a b. get_property (nodes g1) key = Some a \<and> get_property (nodes g2) key = Some b
              \<and> JSON_stringify a \<noteq> JSON_stringify b)
         \<or> (\<exists>key a b. get_property (edges g1) key = Some a \<and> get_property (edges g2) key = Some b
              \<and> JSON_stringify a \<noteq> JSON_stringify b)"
  shows "\<exists>e. mergeGraphsConsistent g1 g2 = Inl e"
proof -
  from assms have
    "(\<exists>e. mergeDict (nodes g1) (nodes g2) confluentNodeReducer = Inl e)
     \<or> (\<exists>e. mergeDict (edges g1) (edges g2) confluentEdgeReducer = Inl e)"
    unfolding get_property_def
    by (meson mergeDict_conflict confluentNodeReducer_neq confluentEdgeReducer_neq)
  then show ?thesis
    unfolding mergeGraphsConsistent_def mergeGraphs_mergeDict
    by (cases "mergeDict (nodes g1) (nodes g2) confluentNodeReducer") auto
qed

text \<open>What the last-write-wins merge returns when the keys it visits are identifier
  tokens: it does not fail, and the result holds exactly the keys of the first graph, each
  with the value of the second graph if the second graph holds the key and with the value of
  the first graph otherwise.\<close>

lemma mergeGraphsArbitrary_lookup:
  assumes "token_keys g2"
  shows "\<exists>r. mergeGraphsArbitrary g1 g2 = Inr r
     \<and> (\<forall>key. get_property (nodes r) key =
           (case get_property (nodes g1) key of None \<Rightarrow> None
            | Some a \<Rightarrow> (case get_property (nodes g2) key of None \<Rightarrow> Some a | Some b \<Rightarrow> Some b)))
     \<and> (\<forall>key. get_property (edges r) key =
           (case get_property (edges g1) key of None \<Rightarrow> None
            | Some a \<Rightarrow> (case get_property (edges g2) key of None \<Rightarrow> Some a | Some b \<Rightarrow> Some b)))"
proof -
  obtain rn where rn: "mergeDict (nodes g1) (nodes g2) (\<lambda>a b. Inr b) = Inr rn"
    "\<forall>k. map_of rn k = (case map_of (nodes g1) k of None \<Rightarrow> None
               | Some a \<Rightarrow> (case map_of (nodes g2) k of None \<Rightarrow> Some a | Some b \<Rightarrow> Some b))"
    using mergeDict_lookup[of "nodes g1" "nodes g2" "\<lambda>a b. Inr b" "\<lambda>a b. b"] by auto
  obtain re where re: "mergeDict (edges g1) (edges g2) (\<lambda>a b. Inr b) = Inr re"
    "\<forall>k. map_of re k = (case map_of (edges g1) k of None \<Rightarrow> None
               | Some a \<Rightarrow> (case map_of (edges g2) k of None \<Rightarrow> Some a | Some b \<Rightarrow> Some b))"
    using mergeDict_lookup[of "edges g1" "edges g2" "\<lambda>a b. Inr b" "\<lambda>a b. b"] by auto
  have "mergeGraphsArbitrary g1 g2 = Inr \<lparr>nodes = rn, edges = re\<rparr>"
    by (simp add: mergeGraphsArbitrary_def mergeGraphs_mergeDict rn(1) re(1))
  with rn(2) re(2) show ?thesis unfolding get_property_def by simp
qed

text \<open>Merging a graph whose keys are identifier tokens into the empty graph returns the
  empty graph, whatever the reducers.\<close>

lemma forEach_reduceKey_empty: "forEach ks (reduceKey [] d2 reducer) [] = Inr []"
  by (induction ks) (simp_all add: reduceKey_def has_property_def Object_keys_def)

lemma mergeGraphs_emptyGraph_left:
  assumes "token_keys g"
  shows "mergeGraphs emptyGraph g nr er = Inr emptyGraph"
  by (simp add: mergeGraphs_def emptyGraph_def forEach_reduceKey_empty)

text \<open>Merging the empty graph into a graph returns that graph.\<close>

lemma mergeGraphs_emptyGraph_right: "mergeGraphs g emptyGraph nr er = Inr g"
  by (simp add: mergeGraphs_def emptyGraph_def Object_keys_def)




text \<open>
  Claim C1 (last write wins), evaluated where it fails. The second graph holds the node
  \<open>p$r$b\<close> and the edge \<open>p$r$e\<close>, which the first graph does not hold. The loops of
  \<open>mergeGraphs\<close> assign only to keys that the copy of the first graph already has, so the
  result is the first graph: the entries that only the second graph has are not inserted.
  (Lemma \<open>mergeGraphsArbitrary_lookup\<close> above gives the result for all graphs with token
  keys: the two other parts of the claim, the value under a shared key and the entries of
  the first graph alone, do hold.)
\<close>

theorem mergeGraphsArbitrary_drops_new_ids:
  "mergeGraphsArbitrary
     \<lparr>nodes = [(''p$r$a'', NodeA)], edges = []\<rparr>
     \<lparr>nodes = [(''p$r$b'', NodeB)], edges = [(''p$r$e'', EdgeE)]\<rparr>
   = Inr \<lparr>nodes = [(''p$r$a'', NodeA)], edges = []\<rparr>"
  by (simp add: mergeGraphsArbitrary_def mergeGraphs_def reduceKey_def
      has_property_def Object_keys_def)

text \<open>
  Claim C2 (the concrete scenario), evaluated. With \<open>g1\<close> holding \<open>NodeA\<close> under \<open>p$r$a\<close>
  and \<open>g2\<close> holding \<open>NodeA'\<close> under \<open>p$r$a\<close> and \<open>NodeB\<close> under \<open>p$r$b\<close>,
  \<open>mergeGraphsArbitrary\<close> returns a graph with the single node \<open>NodeA'\<close> (the node
  \<open>p$r$b\<close> is missing), and \<open>mergeGraphsConsistent\<close> throws the type error of the call
  \<open>stringToID(a.id)\<close>, not an error that names \<open>p$r$a\<close>.
\<close>

theorem scenario_merge_results:
  "mergeGraphsArbitrary
     \<lparr>nodes = [(''p$r$a'', NodeA)], edges = []\<rparr>
     \<lparr>nodes = [(''p$r$a'', NodeA'), (''p$r$b'', NodeB)], edges = []\<rparr>
   = Inr \<lparr>nodes = [(''p$r$a'', NodeA')], edges = []\<rparr>
   \<and> mergeGraphsConsistent
     \<lparr>nodes = [(''p$r$a'', NodeA)], edges = []\<rparr>
     \<lparr>nodes = [(''p$r$a'', NodeA'), (''p$r$b'', NodeB)], edges = []\<rparr>
   = Inl (TypeError ''string.split is not a function'')"
  by code_simp

text \<open>
  Claim C3 (confluent failure), evaluated where it fails. A conflict on a node and a conflict
  on an edge both make \<open>mergeGraphsConsistent\<close> throw, but what is thrown is the type error
  raised while the message is built: the reducer passes the identifier object \<open>a.id\<close> to
  \<open>stringToID\<close>, which expects a string. The error is the same for every identifier and
  names none. (By lemma \<open>mergeGraphsConsistent_conflict\<close> above every conflict makes the
  merge throw, and by lemma \<open>mergeGraphsConsistent_Inl\<close> what it throws on nodes and edges
  of the declared type is always this type error.)
\<close>

theorem conflict_raises_TypeError:
  "mergeGraphsConsistent
     \<lparr>nodes = [(''p$r$a'', NodeA)], edges = []\<rparr>
     \<lparr>nodes = [(''p$r$a'', NodeA')], edges = []\<rparr>
   = Inl (TypeError ''string.split is not a function'')
   \<and> mergeGraphsConsistent
     \<lparr>nodes = [], edges = [(''p$r$e'', EdgeE)]\<rparr>
     \<lparr>nodes = [], edges = [(''p$r$e'', EdgeE')]\<rparr>
   = Inl (TypeError ''string.split is not a function'')"
  by code_simp

text \<open>
  Claim C5 (merge identity), evaluated where it fails. Folding a graph with one node and one
  edge into the empty accumulator returns the empty graph under both policies, not the
  graph. (By \<open>mergeGraphs_emptyGraph_left\<close> this is so for every graph with token keys
  and all reducers; by \<open>mergeGraphs_emptyGraph_right\<close> the empty graph is an identity on
  the right only.)
\<close>

theorem merge_into_emptyGraph:
  "mergeGraphsArbitrary emptyGraph \<lparr>nodes = [(''p$r$a'', NodeA)], edges = [(''p$r$e'', EdgeE)]\<rparr>
     = Inr emptyGraph
   \<and> mergeGraphsConsistent emptyGraph \<lparr>nodes = [(''p$r$a'', NodeA)], edges = [(''p$r$e'', EdgeE)]\<rparr>
     = Inr emptyGraph
   \<and> \<lparr>nodes = [(''p$r$a'', NodeA)], edges = [(''p$r$e'', EdgeE)]\<rparr> \<noteq> emptyGraph"
  by code_simp

section \<open>Properties of the merge engine on a store\<close>

text \<open>The loops write to the dictionary of the result only.\<close>

lemma writes_only_refl: "writes_only r h h"
  unfolding writes_only_def by (rule exI[of _ "dict_at h r"]) simp

lemma writes_only_trans:
  "writes_only r h h' \<Longrightarrow> writes_only r h' h'' \<Longrightarrow> writes_only r h h''"
  unfolding writes_only_def by auto

lemma writes_only_simps:
  assumes "writes_only r h h'"
  shows "node_at h' = node_at h" "edge_at h' = edge_at h" "graph_at h' = graph_at h"
    "next_addr h' = next_addr h" "a \<noteq> r \<Longrightarrow> dict_at h' a = dict_at h a"
  using assms unfolding writes_only_def by auto

lemma reduceKey_heap_writes:
  assumes "reduceKey_heap field g1 g2 result reducer key h = Inr h'"
  shows "writes_only (field (graph_at h result)) h h'"
proof (cases "has_property key (dict_at h (field (graph_at h result)))")
  case False
  with assms have "h' = h" by (simp add: reduceKey_heap_def Let_def)
  then show ?thesis by (simp add: writes_only_refl)
next
  case True
  with assms show ?thesis
    unfolding writes_only_def
    by (auto simp: reduceKey_heap_def Let_def split: option.splits sum.splits)
qed

lemma forEach_heap_writes:
  assumes "forEach_heap ks (reduceKey_heap field g1 g2 result reducer) h = (r, h')"
  shows "writes_only (field (graph_at h result)) h h'"
  using assms
proof (induction ks arbitrary: h)
  case Nil
  then show ?case by (simp add: writes_only_refl)
next
  case (Cons key ks)
  show ?case
  proof (cases "reduceKey_heap field g1 g2 result reducer key h")
    case (Inl e)
    with Cons.prems show ?thesis by (simp add: writes_only_refl)
  next
    case (Inr h1)
    from reduceKey_heap_writes[OF Inr]
    have w1: "writes_only (field (graph_at h result)) h h1" .
    from Cons.prems Inr
    have "forEach_heap ks (reduceKey_heap field g1 g2 result reducer) h1 = (r, h')" by simp
    from Cons.IH[OF this] have "writes_only (field (graph_at h1 result)) h1 h'" .
    then have "writes_only (field (graph_at h result)) h1 h'"
      using writes_only_simps(3)[OF w1] by simp
    with w1 show ?thesis by (rule writes_only_trans)
  qed
qed

lemma Object_keys_deref: "Object_keys (deref f d) = Object_keys d"
  by (induction d) (auto simp: deref_def Object_keys_def)

lemma has_property_deref: "has_property key (deref f d) = has_property key d"
  by (simp add: has_property_def Object_keys_deref)

lemma get_property_deref: "get_property (deref f d) key = map_option f (get_property d key)"
  by (induction d) (auto simp: deref_def get_property_def)

lemma deref_set_property: "deref f (set_property d key v) = set_property (deref f d) key (f v)"
  by (induction d key v rule: set_property.induct) (auto simp: deref_def)

lemma forEach_heap_refines:
  fixes valf :: "heap \<Rightarrow> addr \<Rightarrow> 'v"
  assumes "forEach_heap ks (reduceKey_heap field g1 g2 result rH) h = (ro, h')"
    and valf: "\<And>h d. valf (h\<lparr>dict_at := d\<rparr>) = valf h"
    and red: "\<And>h' a b. valf h' = f \<Longrightarrow> map_sum id f (rH h' a b) = rP (f a) (f b)"
    and "valf h = f"
    and "field (graph_at h result) \<noteq> field (graph_at h g1)"
    and "field (graph_at h result) \<noteq> field (graph_at h g2)"
  shows "forEach ks (reduceKey (deref f (dict_at h (field (graph_at h g1))))
                               (deref f (dict_at h (field (graph_at h g2)))) rP)
                    (deref f (dict_at h (field (graph_at h result))))
         = (case ro of Some e \<Rightarrow> Inl e
            | None \<Rightarrow> Inr (deref f (dict_at h' (field (graph_at h result)))))"
  using assms(1,4,5,6)
proof (induction ks arbitrary: h)
  case Nil
  then show ?case by auto
next
  case (Cons key ks)
  let ?R = "field (graph_at h result)"
  let ?D1 = "field (graph_at h g1)"
  let ?D2 = "field (graph_at h g2)"
  let ?d1 = "deref f (dict_at h ?D1)"
  let ?d2 = "deref f (dict_at h ?D2)"
  let ?acc = "deref f (dict_at h ?R)"
  show ?case
  proof (cases "has_property key (dict_at h ?R)")
    case False
    then have stepH: "reduceKey_heap field g1 g2 result rH key h = Inr h"
      by (simp add: reduceKey_heap_def Let_def)
    have stepP: "reduceKey ?d1 ?d2 rP key ?acc = Inr ?acc"
      using False by (simp add: reduceKey_def has_property_deref)
    from Cons.prems(1) stepH
    have rest: "forEach_heap ks (reduceKey_heap field g1 g2 result rH) h = (ro, h')" by simp
    from Cons.IH[OF rest Cons.prems(2,3,4)] stepP show ?thesis by simp
  next
    case True
    note hp = True
    show ?thesis
    proof (cases "get_property (dict_at h ?D1) key")
      case None
      with hp Cons.prems(1) have "ro = Some (TypeError ''undefined'')"
        by (simp add: reduceKey_heap_def Let_def)
      moreover have "reduceKey ?d1 ?d2 rP key ?acc = Inl (TypeError ''undefined'')"
        using hp None by (simp add: reduceKey_def has_property_deref get_property_deref)
      ultimately show ?thesis by simp
    next
      case (Some a)
      note a = Some
      show ?thesis
      proof (cases "get_property (dict_at h ?D2) key")
        case None
        with hp a Cons.prems(1) have "ro = Some (TypeError ''undefined'')"
          by (simp add: reduceKey_heap_def Let_def)
        moreover have "reduceKey ?d1 ?d2 rP key ?acc = Inl (TypeError ''undefined'')"
          using hp a None by (simp add: reduceKey_def has_property_deref get_property_deref)
        ultimately show ?thesis by simp
      next
        case (Some b)
        note b = Some
        have rel: "map_sum id f (rH h a b) = rP (f a) (f b)"
          by (rule red[OF Cons.prems(2)])
        show ?thesis
        proof (cases "rH h a b")
          case (Inl e)
          with hp a b Cons.prems(1) have "ro = Some e"
            by (simp add: reduceKey_heap_def Let_def)
          moreover from rel[symmetric] Inl have rp: "rP (f a) (f b) = Inl e" by simp
          have "reduceKey ?d1 ?d2 rP key ?acc = Inl e"
            using hp a b rp
            by (simp add: reduceKey_def has_property_deref get_property_deref)
          ultimately show ?thesis by simp
        next
          case (Inr v)
          let ?h1 = "h\<lparr>dict_at := (dict_at h)(?R := set_property (dict_at h ?R) key v)\<rparr>"
          have stepH: "reduceKey_heap field g1 g2 result rH key h = Inr ?h1"
            using hp a b Inr by (simp add: reduceKey_heap_def Let_def)
          from rel[symmetric] Inr have rp: "rP (f a) (f b) = Inr (f v)" by simp
          have stepP: "reduceKey ?d1 ?d2 rP key ?acc = Inr (set_property ?acc key (f v))"
            using hp a b rp
            by (simp add: reduceKey_def has_property_deref get_property_deref)
          from Cons.prems(1) stepH
          have rest: "forEach_heap ks (reduceKey_heap field g1 g2 result rH) ?h1 = (ro, h')"
            by simp
          have v1: "valf ?h1 = f" using Cons.prems(2) by (simp add: valf)
          have g1: "graph_at ?h1 = graph_at h" by simp
          have ne1: "field (graph_at ?h1 result) \<noteq> field (graph_at ?h1 g1)"
            "field (graph_at ?h1 result) \<noteq> field (graph_at ?h1 g2)"
            using Cons.prems(3,4) by simp_all
          have d: "dict_at ?h1 ?D1 = dict_at h ?D1" "dict_at ?h1 ?D2 = dict_at h ?D2"
            "deref f (dict_at ?h1 ?R) = set_property ?acc key (f v)"
            using Cons.prems(3,4) by (simp_all add: deref_set_property)
          from Cons.IH[OF rest v1 ne1] show ?thesis
            unfolding g1 d using stepP by simp
        qed
      qed
    qed
  qed
qed

lemma mergeGraphs_heap_steps:
  assumes "mergeGraphs_heap g1 g2 nodeReducer edgeReducer h = (r, h')"
  obtains h3 r4 h4 r5 h5 where
    "node_at h3 = node_at h" "edge_at h3 = edge_at h"
    "next_addr h3 = Suc (Suc (Suc (next_addr h)))"
    "\<And>a. a < next_addr h \<Longrightarrow> graph_at h3 a = graph_at h a"
    "\<And>a. a < next_addr h \<Longrightarrow> dict_at h3 a = dict_at h a"
    "graph_at h3 (Suc (Suc (next_addr h))) = \<lparr>nodes_ref = next_addr h, edges_ref = Suc (next_addr h)\<rparr>"
    "dict_at h3 (next_addr h) = dict_at h (nodes_ref (graph_at h g1))"
    "edges_ref (graph_at h g1) < next_addr h \<Longrightarrow>
       dict_at h3 (Suc (next_addr h)) = dict_at h (edges_ref (graph_at h g1))"
    "forEach_heap (Object_keys (dict_at h3 (nodes_ref (graph_at h3 g2))))
       (reduceKey_heap nodes_ref g1 g2 (Suc (Suc (next_addr h))) nodeReducer) h3 = (r4, h4)"
    "forEach_heap (Object_keys (dict_at h4 (edges_ref (graph_at h4 g2))))
       (reduceKey_heap edges_ref g1 g2 (Suc (Suc (next_addr h))) edgeReducer) h4 = (r5, h5)"
    "(r, h') = (case r4 of Some e \<Rightarrow> (Inl e, h4)
                | None \<Rightarrow> (case r5 of Some e \<Rightarrow> (Inl e, h5)
                            | None \<Rightarrow> (Inr (Suc (Suc (next_addr h))), h5)))"
proof -
  let ?N = "next_addr h"
  obtain rn h1 where a1: "new_dict (dict_at h (nodes_ref (graph_at h g1))) h = (rn, h1)"
    by fastforce
  obtain re h2 where a2: "new_dict (dict_at h1 (edges_ref (graph_at h1 g1))) h1 = (re, h2)"
    by fastforce
  obtain result h3 where a3: "new_graph rn re h2 = (result, h3)"
    by fastforce
  obtain r4 h4 where l1: "forEach_heap (Object_keys (dict_at h3 (nodes_ref (graph_at h3 g2))))
                (reduceKey_heap nodes_ref g1 g2 result nodeReducer) h3 = (r4, h4)"
    by fastforce
  obtain r5 h5 where l2: "forEach_heap (Object_keys (dict_at h4 (edges_ref (graph_at h4 g2))))
                (reduceKey_heap edges_ref g1 g2 result edgeReducer) h4 = (r5, h5)"
    by fastforce
  have res: "(r, h') = (case r4 of Some e \<Rightarrow> (Inl e, h4)
                | None \<Rightarrow> (case r5 of Some e \<Rightarrow> (Inl e, h5) | None \<Rightarrow> (Inr result, h5)))"
    using assms by (simp add: mergeGraphs_heap_def a1 a2 a3 l1 l2 split: option.splits)
  have rn: "rn = ?N" and h1: "h1 = h\<lparr>dict_at := (dict_at h)(?N := dict_at h (nodes_ref (graph_at h g1))),
                                     next_addr := Suc ?N\<rparr>"
    using a1 by (auto simp: new_dict_def)
  have re: "re = Suc ?N" and h2: "h2 = h1\<lparr>dict_at := (dict_at h1)(Suc ?N := dict_at h1 (edges_ref (graph_at h g1))),
                                     next_addr := Suc (Suc ?N)\<rparr>"
    using a2 by (auto simp: new_dict_def h1)
  have result: "result = Suc (Suc ?N)" and h3: "h3 = h2\<lparr>graph_at := (graph_at h2)(Suc (Suc ?N) := \<lparr>nodes_ref = ?N, edges_ref = Suc ?N\<rparr>),
                                     next_addr := Suc (Suc (Suc ?N))\<rparr>"
    using a3 by (auto simp: new_graph_def h2 h1 rn re)
  show ?thesis
  proof (rule that[of h3 r4 h4 r5 h5])
    show "node_at h3 = node_at h" "edge_at h3 = edge_at h" "next_addr h3 = Suc (Suc (Suc ?N))"
      by (simp_all add: h3 h2 h1)
    show "graph_at h3 a = graph_at h a" if "a < ?N" for a using that by (simp add: h3 h2 h1)
    show "dict_at h3 a = dict_at h a" if "a < ?N" for a using that by (simp add: h3 h2 h1)
    show "graph_at h3 (Suc (Suc ?N)) = \<lparr>nodes_ref = ?N, edges_ref = Suc ?N\<rparr>" by (simp add: h3)
    show "dict_at h3 ?N = dict_at h (nodes_ref (graph_at h g1))" by (simp add: h3 h2 h1)
    show "dict_at h3 (Suc ?N) = dict_at h (edges_ref (graph_at h g1))"
      if "edges_ref (graph_at h g1) < ?N" using that by (simp add: h3 h2 h1)
    show "forEach_heap (Object_keys (dict_at h3 (nodes_ref (graph_at h3 g2))))
       (reduceKey_heap nodes_ref g1 g2 (Suc (Suc ?N)) nodeReducer) h3 = (r4, h4)"
      using l1 result by simp
    show "forEach_heap (Object_keys (dict_at h4 (edges_ref (graph_at h4 g2))))
       (reduceKey_heap edges_ref g1 g2 (Suc (Suc ?N)) edgeReducer) h4 = (r5, h5)"
      using l2 result by simp
    show "(r, h') = (case r4 of Some e \<Rightarrow> (Inl e, h4)
                | None \<Rightarrow> (case r5 of Some e \<Rightarrow> (Inl e, h5)
                            | None \<Rightarrow> (Inr (Suc (Suc ?N)), h5)))"
      by (rule res[unfolded result])
  qed
qed

lemma mergeGraphs_heap_frame:
  assumes "mergeGraphs_heap g1 g2 nodeReducer edgeReducer h = (r, h')"
  shows "node_at h' = node_at h" and "edge_at h' = edge_at h"
    and "\<And>a. a < next_addr h \<Longrightarrow> graph_at h' a = graph_at h a"
    and "\<And>a. a < next_addr h \<Longrightarrow> dict_at h' a = dict_at h a"
    and "graph_at h' (Suc (Suc (next_addr h))) = \<lparr>nodes_ref = next_addr h, edges_ref = Suc (next_addr h)\<rparr>"
    and "next_addr h' = Suc (Suc (Suc (next_addr h)))"
    and "\<And>g. r = Inr g \<Longrightarrow> g = Suc (Suc (next_addr h))"
proof -
  let ?N = "next_addr h"
  from assms obtain h3 r4 h4 r5 h5 where
    k: "node_at h3 = node_at h" "edge_at h3 = edge_at h" "next_addr h3 = Suc (Suc (Suc ?N))"
      "\<And>a. a < ?N \<Longrightarrow> graph_at h3 a = graph_at h a"
      "\<And>a. a < ?N \<Longrightarrow> dict_at h3 a = dict_at h a"
    and g3: "graph_at h3 (Suc (Suc ?N)) = \<lparr>nodes_ref = ?N, edges_ref = Suc ?N\<rparr>"
    and c3: "dict_at h3 ?N = dict_at h (nodes_ref (graph_at h g1))"
      "edges_ref (graph_at h g1) < ?N \<Longrightarrow> dict_at h3 (Suc ?N) = dict_at h (edges_ref (graph_at h g1))"
    and l1: "forEach_heap (Object_keys (dict_at h3 (nodes_ref (graph_at h3 g2))))
       (reduceKey_heap nodes_ref g1 g2 (Suc (Suc ?N)) nodeReducer) h3 = (r4, h4)"
    and l2: "forEach_heap (Object_keys (dict_at h4 (edges_ref (graph_at h4 g2))))
       (reduceKey_heap edges_ref g1 g2 (Suc (Suc ?N)) edgeReducer) h4 = (r5, h5)"
    and res: "(r, h') = (case r4 of Some e \<Rightarrow> (Inl e, h4)
                | None \<Rightarrow> (case r5 of Some e \<Rightarrow> (Inl e, h5)
                            | None \<Rightarrow> (Inr (Suc (Suc ?N)), h5)))"
    by (rule mergeGraphs_heap_steps) blast
  have w4: "writes_only ?N h3 h4"
    using forEach_heap_writes[OF l1] g3 by simp
  note s4 = writes_only_simps[OF w4]
  have w5: "writes_only (Suc ?N) h4 h5"
    using forEach_heap_writes[OF l2] g3 s4(3) by simp
  note s5 = writes_only_simps[OF w5]
  from res have h': "h' = h4 \<or> h' = h5" by (auto split: option.splits)
  show "node_at h' = node_at h" using h' s4(1) s5(1) k(1) by auto
  show "edge_at h' = edge_at h" using h' s4(2) s5(2) k(2) by auto
  show "graph_at h' a = graph_at h a" if "a < ?N" for a
    using h' s4(3) s5(3) k(4)[OF that] by auto
  show "dict_at h' a = dict_at h a" if "a < ?N" for a
    using h' s4(5)[of a] s5(5)[of a] k(5)[OF that] that by auto
  show "graph_at h' (Suc (Suc ?N)) = \<lparr>nodes_ref = ?N, edges_ref = Suc ?N\<rparr>"
    using h' s4(3) s5(3) g3 by auto
  show "next_addr h' = Suc (Suc (Suc ?N))" using h' s4(4) s5(4) k(3) by auto
  show "g = Suc (Suc ?N)" if "r = Inr g" for g using res that by (auto split: option.splits)
qed

lemma mergeGraphs_heap_refines:
  assumes run: "mergeGraphs_heap g1 g2 nodeReducer_h edgeReducer_h h = (r, h')"
    and alloc: "allocated h g1" "allocated h g2"
    and nred: "\<And>h' a b. node_at h' = node_at h \<Longrightarrow>
                 map_sum id (node_at h) (nodeReducer_h h' a b) = nodeReducer (node_at h a) (node_at h b)"
    and ered: "\<And>h' a b. edge_at h' = edge_at h \<Longrightarrow>
                 map_sum id (edge_at h) (edgeReducer_h h' a b) = edgeReducer (edge_at h a) (edge_at h b)"
  shows "map_sum id (graph_of h') r = mergeGraphs (graph_of h g1) (graph_of h g2) nodeReducer edgeReducer"
proof -
  let ?N = "next_addr h"
  let ?res = "Suc (Suc ?N)"
  from run obtain h3 r4 h4 r5 h5 where
    k: "node_at h3 = node_at h" "edge_at h3 = edge_at h" "next_addr h3 = Suc (Suc (Suc ?N))"
      "\<And>a. a < ?N \<Longrightarrow> graph_at h3 a = graph_at h a"
      "\<And>a. a < ?N \<Longrightarrow> dict_at h3 a = dict_at h a"
    and g3: "graph_at h3 ?res = \<lparr>nodes_ref = ?N, edges_ref = Suc ?N\<rparr>"
    and c3: "dict_at h3 ?N = dict_at h (nodes_ref (graph_at h g1))"
      "edges_ref (graph_at h g1) < ?N \<Longrightarrow> dict_at h3 (Suc ?N) = dict_at h (edges_ref (graph_at h g1))"
    and l1: "forEach_heap (Object_keys (dict_at h3 (nodes_ref (graph_at h3 g2))))
       (reduceKey_heap nodes_ref g1 g2 ?res nodeReducer_h) h3 = (r4, h4)"
    and l2: "forEach_heap (Object_keys (dict_at h4 (edges_ref (graph_at h4 g2))))
       (reduceKey_heap edges_ref g1 g2 ?res edgeReducer_h) h4 = (r5, h5)"
    and res: "(r, h') = (case r4 of Some e \<Rightarrow> (Inl e, h4)
                | None \<Rightarrow> (case r5 of Some e \<Rightarrow> (Inl e, h5)
                            | None \<Rightarrow> (Inr ?res, h5)))"
    by (rule mergeGraphs_heap_steps) blast
  from alloc have lt: "g1 < ?N" "g2 < ?N"
    "nodes_ref (graph_at h g1) < ?N" "edges_ref (graph_at h g1) < ?N"
    "nodes_ref (graph_at h g2) < ?N" "edges_ref (graph_at h g2) < ?N"
    by (simp_all add: allocated_def)
  have w4: "writes_only ?N h3 h4"
    using forEach_heap_writes[OF l1] g3 by simp
  note s4 = writes_only_simps[OF w4]
  have w5: "writes_only (Suc ?N) h4 h5"
    using forEach_heap_writes[OF l2] g3 s4(3) by simp
  note s5 = writes_only_simps[OF w5]
  have gr3: "graph_at h3 g1 = graph_at h g1" "graph_at h3 g2 = graph_at h g2"
    using k(4) lt by simp_all
  have gr4: "graph_at h4 g1 = graph_at h g1" "graph_at h4 g2 = graph_at h g2"
    "graph_at h4 ?res = \<lparr>nodes_ref = ?N, edges_ref = Suc ?N\<rparr>"
    using gr3 g3 s4(3) by simp_all
  have d3: "dict_at h3 (nodes_ref (graph_at h g1)) = dict_at h (nodes_ref (graph_at h g1))"
    "dict_at h3 (nodes_ref (graph_at h g2)) = dict_at h (nodes_ref (graph_at h g2))"
    using k(5) lt by simp_all
  have d4: "dict_at h4 (edges_ref (graph_at h g1)) = dict_at h (edges_ref (graph_at h g1))"
    "dict_at h4 (edges_ref (graph_at h g2)) = dict_at h (edges_ref (graph_at h g2))"
    "dict_at h4 (Suc ?N) = dict_at h (edges_ref (graph_at h g1))"
    using k(5) lt s4(5) c3 by simp_all
  let ?G1 = "graph_of h g1" and ?G2 = "graph_of h g2"
  have nodes_loop:
    "forEach (Object_keys (nodes ?G2)) (reduceKey (nodes ?G1) (nodes ?G2) nodeReducer) (nodes ?G1)
       = (case r4 of Some e \<Rightarrow> Inl e | None \<Rightarrow> Inr (deref (node_at h) (dict_at h4 ?N)))"
  proof -
    have "forEach (Object_keys (dict_at h3 (nodes_ref (graph_at h3 g2))))
            (reduceKey (deref (node_at h) (dict_at h3 (nodes_ref (graph_at h3 g1))))
                       (deref (node_at h) (dict_at h3 (nodes_ref (graph_at h3 g2)))) nodeReducer)
            (deref (node_at h) (dict_at h3 (nodes_ref (graph_at h3 ?res))))
          = (case r4 of Some e \<Rightarrow> Inl e
             | None \<Rightarrow> Inr (deref (node_at h) (dict_at h4 (nodes_ref (graph_at h3 ?res)))))"
    proof (rule forEach_heap_refines[OF l1, where valf = node_at])
      show "node_at (h\<lparr>dict_at := d\<rparr>) = node_at h" for h :: heap and d by simp
      show "map_sum id (node_at h) (nodeReducer_h h' a b) = nodeReducer (node_at h a) (node_at h b)"
        if "node_at h' = node_at h" for h' a b using that by (rule nred)
      show "node_at h3 = node_at h" by (rule k(1))
      show "nodes_ref (graph_at h3 ?res) \<noteq> nodes_ref (graph_at h3 g1)"
        "nodes_ref (graph_at h3 ?res) \<noteq> nodes_ref (graph_at h3 g2)"
        using g3 gr3 lt by simp_all
    qed
    then show ?thesis
      unfolding graph_of_def gr3 g3 by (simp add: d3 c3 Object_keys_deref split: option.splits)
  qed
  have edges_loop:
    "forEach (Object_keys (edges ?G2)) (reduceKey (edges ?G1) (edges ?G2) edgeReducer) (edges ?G1)
       = (case r5 of Some e \<Rightarrow> Inl e | None \<Rightarrow> Inr (deref (edge_at h) (dict_at h5 (Suc ?N))))"
  proof -
    have "forEach (Object_keys (dict_at h4 (edges_ref (graph_at h4 g2))))
            (reduceKey (deref (edge_at h) (dict_at h4 (edges_ref (graph_at h4 g1))))
                       (deref (edge_at h) (dict_at h4 (edges_ref (graph_at h4 g2)))) edgeReducer)
            (deref (edge_at h) (dict_at h4 (edges_ref (graph_at h4 ?res))))
          = (case r5 of Some e \<Rightarrow> Inl e
             | None \<Rightarrow> Inr (deref (edge_at h) (dict_at h5 (edges_ref (graph_at h4 ?res)))))"
    proof (rule forEach_heap_refines[OF l2, where valf = edge_at])
      show "edge_at (h\<lparr>dict_at := d\<rparr>) = edge_at h" for h :: heap and d by simp
      show "map_sum id (edge_at h) (edgeReducer_h h' a b) = edgeReducer (edge_at h a) (edge_at h b)"
        if "edge_at h' = edge_at h" for h' a b using that by (rule ered)
      show "edge_at h4 = edge_at h" using s4(2) k(2) by simp
      show "edges_ref (graph_at h4 ?res) \<noteq> edges_ref (graph_at h4 g1)"
        "edges_ref (graph_at h4 ?res) \<noteq> edges_ref (graph_at h4 g2)"
        using gr4 lt by simp_all
    qed
    then show ?thesis
      unfolding graph_of_def gr4 by (simp add: d4 Object_keys_deref split: option.splits)
  qed
  show ?thesis
  proof (cases r4)
    case (Some e)
    with res have "r = Inl e" by simp
    with nodes_loop Some show ?thesis by (simp add: mergeGraphs_def)
  next
    case None
    note r4 = None
    show ?thesis
    proof (cases r5)
      case (Some e)
      with res r4 have "r = Inl e" by simp
      with nodes_loop edges_loop r4 Some show ?thesis by (simp add: mergeGraphs_def)
    next
      case None
      with res r4 have r: "r = Inr ?res" "h' = h5" by simp_all
      have "graph_of h5 ?res = \<lparr>nodes = deref (node_at h) (dict_at h4 ?N),
                                 edges = deref (edge_at h) (dict_at h5 (Suc ?N))\<rparr>"
        using s5 s4 gr4 k(1,2) by (simp add: graph_of_def)
      with nodes_loop edges_loop r4 None r show ?thesis by (simp add: mergeGraphs_def)
    qed
  qed
qed

lemma confluentNodeReducer_heap_refines:
  "node_at h' = node_at h \<Longrightarrow>
     map_sum id (node_at h) (confluentNodeReducer_heap h' a b)
       = confluentNodeReducer (node_at h a) (node_at h b)"
  by (simp add: confluentNodeReducer_heap_def confluentNodeReducer_def split: sum.splits)

lemma confluentEdgeReducer_heap_refines:
  "edge_at h' = edge_at h \<Longrightarrow>
     map_sum id (edge_at h) (confluentEdgeReducer_heap h' a b)
       = confluentEdgeReducer (edge_at h a) (edge_at h b)"
  by (simp add: confluentEdgeReducer_heap_def confluentEdgeReducer_def split: sum.splits)

lemma mergeGraphsConsistent_heap_refines:
  assumes "mergeGraphsConsistent_heap g1 g2 h = (r, h')" and "allocated h g1" and "allocated h g2"
  shows "map_sum id (graph_of h') r = mergeGraphsConsistent (graph_of h g1) (graph_of h g2)"
  unfolding mergeGraphsConsistent_def
  by (rule mergeGraphs_heap_refines[OF assms[unfolded mergeGraphsConsistent_heap_def]])
     (simp_all add: confluentNodeReducer_heap_refines confluentEdgeReducer_heap_refines)

lemma mergeGraphsArbitrary_heap_refines:
  assumes "mergeGraphsArbitrary_heap g1 g2 h = (r, h')" and "allocated h g1" and "allocated h g2"
  shows "map_sum id (graph_of h') r = mergeGraphsArbitrary (graph_of h g1) (graph_of h g2)"
  unfolding mergeGraphsArbitrary_def
  by (rule mergeGraphs_heap_refines[OF assms[unfolded mergeGraphsArbitrary_heap_def]]) simp_all

text \<open>
  Claim C9 (no mutation, fresh result). Let \<open>g1\<close> and \<open>g2\<close> be graphs of the store
  before the call. After \<open>mergeGraphs\<close>, whether it returned or threw, the two graph
  objects, their four dictionaries and every node and edge object are what they were, and so
  is every object that existed before. When it returns, the graph object it returns and
  the two dictionaries of that object did not exist before the call: they are different
  from \<open>g1\<close>, from \<open>g2\<close> and from each of their dictionaries, and from each other. This
  holds for all reducers that only read the store, thus for both policies. (The dictionaries
  are new; the node and edge objects they refer to are those of the arguments.)
\<close>

theorem mergeGraphs_heap_inputs_unchanged:
  assumes "mergeGraphs_heap g1 g2 nodeReducer edgeReducer h = (r, h')"
      and "allocated h g1" and "allocated h g2"
  shows "graph_at h' g1 = graph_at h g1 \<and> graph_at h' g2 = graph_at h g2
       \<and> graph_of h' g1 = graph_of h g1 \<and> graph_of h' g2 = graph_of h g2
       \<and> node_at h' = node_at h \<and> edge_at h' = edge_at h
       \<and> (\<forall>a. a < next_addr h \<longrightarrow> graph_at h' a = graph_at h a \<and> dict_at h' a = dict_at h a)
       \<and> (\<forall>g. r = Inr g \<longrightarrow>
             \<not> g < next_addr h \<and> g \<noteq> g1 \<and> g \<noteq> g2
             \<and> \<not> nodes_ref (graph_at h' g) < next_addr h
             \<and> \<not> edges_ref (graph_at h' g) < next_addr h
             \<and> nodes_ref (graph_at h' g) \<noteq> edges_ref (graph_at h' g)
             \<and> nodes_ref (graph_at h' g) \<notin>
                 {nodes_ref (graph_at h g1), edges_ref (graph_at h g1),
                  nodes_ref (graph_at h g2), edges_ref (graph_at h g2)}
             \<and> edges_ref (graph_at h' g) \<notin>
                 {nodes_ref (graph_at h g1), edges_ref (graph_at h g1),
                  nodes_ref (graph_at h g2), edges_ref (graph_at h g2)})"
proof -
  note fr = mergeGraphs_heap_frame[OF assms(1)]
  from assms(2,3) have lt: "g1 < next_addr h" "g2 < next_addr h"
    "nodes_ref (graph_at h g1) < next_addr h" "edges_ref (graph_at h g1) < next_addr h"
    "nodes_ref (graph_at h g2) < next_addr h" "edges_ref (graph_at h g2) < next_addr h"
    by (simp_all add: allocated_def)
  have objs: "graph_at h' g1 = graph_at h g1" "graph_at h' g2 = graph_at h g2"
    using fr(3) lt by simp_all
  have conts: "graph_of h' g1 = graph_of h g1" "graph_of h' g2 = graph_of h g2"
    using fr(1,2,4) objs lt by (simp_all add: graph_of_def)
  have old: "\<forall>a. a < next_addr h \<longrightarrow> graph_at h' a = graph_at h a \<and> dict_at h' a = dict_at h a"
    using fr(3,4) by simp
  have new: "\<not> g < next_addr h \<and> g \<noteq> g1 \<and> g \<noteq> g2
             \<and> \<not> nodes_ref (graph_at h' g) < next_addr h
             \<and> \<not> edges_ref (graph_at h' g) < next_addr h
             \<and> nodes_ref (graph_at h' g) \<noteq> edges_ref (graph_at h' g)
             \<and> nodes_ref (graph_at h' g) \<notin>
                 {nodes_ref (graph_at h g1), edges_ref (graph_at h g1),
                  nodes_ref (graph_at h g2), edges_ref (graph_at h g2)}
             \<and> edges_ref (graph_at h' g) \<notin>
                 {nodes_ref (graph_at h g1), edges_ref (graph_at h g1),
                  nodes_ref (graph_at h g2), edges_ref (graph_at h g2)}"
    if "r = Inr g" for g
  proof -
    from fr(7)[OF that] have g: "g = Suc (Suc (next_addr h))" .
    with fr(5) have "graph_at h' g = \<lparr>nodes_ref = next_addr h, edges_ref = Suc (next_addr h)\<rparr>"
      by simp
    with g lt show ?thesis by auto
  qed
  from objs conts fr(1,2) old new show ?thesis by blast
qed

theorem mergeGraphs_heap_inputs_unchanged_witness:
  "allocated heap0 7 \<and> allocated heap0 8
   \<and> fst (mergeGraphsArbitrary_heap 7 8 heap0) = Inr 11
   \<and> graph_of (snd (mergeGraphsArbitrary_heap 7 8 heap0)) 7 = graph_of heap0 7
   \<and> graph_of (snd (mergeGraphsArbitrary_heap 7 8 heap0)) 8 = graph_of heap0 8
   \<and> graph_at (snd (mergeGraphsArbitrary_heap 7 8 heap0)) 11 = \<lparr>nodes_ref = 9, edges_ref = 10\<rparr>
   \<and> fst (mergeGraphsConsistent_heap 7 8 heap0) = Inl (TypeError ''string.split is not a function'')
   \<and> graph_of (snd (mergeGraphsConsistent_heap 7 8 heap0)) 7 = graph_of heap0 7
   \<and> graph_of (snd (mergeGraphsConsistent_heap 7 8 heap0)) 8 = graph_of heap0 8"
proof -
  have a: "allocated heap0 7" "allocated heap0 8"
    by (simp_all add: allocated_def heap0_def)
  let ?A = "mergeGraphsArbitrary_heap 7 8 heap0"
  let ?C = "mergeGraphsConsistent_heap 7 8 heap0"
  have runA: "mergeGraphs_heap 7 8 (\<lambda>h a b. Inr b) (\<lambda>h a b. Inr b) heap0 = (fst ?A, snd ?A)"
    by (simp add: mergeGraphsArbitrary_heap_def)
  have runC: "mergeGraphs_heap 7 8 confluentNodeReducer_heap confluentEdgeReducer_heap heap0
                = (fst ?C, snd ?C)"
    by (simp add: mergeGraphsConsistent_heap_def)
  have rA: "fst ?A = Inr 11" by code_simp
  have rC: "fst ?C = Inl (TypeError ''string.split is not a function'')" by code_simp
  from mergeGraphs_heap_inputs_unchanged[OF runA a] rA
  have "graph_of (snd ?A) 7 = graph_of heap0 7 \<and> graph_of (snd ?A) 8 = graph_of heap0 8
        \<and> nodes_ref (graph_at (snd ?A) 11) \<notin> {3, 4, 5, 6}"
    by (simp add: heap0_def)
  moreover have "graph_at (snd ?A) 11 = \<lparr>nodes_ref = 9, edges_ref = 10\<rparr>"
    using mergeGraphs_heap_frame(5)[OF runA] by (simp add: heap0_def)
  moreover from mergeGraphs_heap_inputs_unchanged[OF runC a]
  have "graph_of (snd ?C) 7 = graph_of heap0 7 \<and> graph_of (snd ?C) 8 = graph_of heap0 8"
    by simp
  ultimately show ?thesis using a rA rC by simp
qed

end
